theory Spec2Isabelle
  imports Complex_Main "HOL-Library.Multiset" "HOL-Library.Sublist"
begin

section \<open>Colours, Lab conversion and the CIE94 distance\<close>

text \<open>
  The drawing logic of \<^verbatim>\<open>src/auto_draw.py\<close> (class \<^verbatim>\<open>AutoDraw\<close>) and of
  \<^verbatim>\<open>src/auto_draw_cli.py\<close> (class \<^verbatim>\<open>SimpleAutoDraw\<close>). A colour is a Python tuple
  of three integer channels. Python floats are modelled by exact reals: rounding and
  overflow of the double format are outside the model, everything else (branches,
  comparisons, order of evaluation, the values that make an operation fail) is
  written out.
\<close>

type_synonym color = "nat \<times> nat \<times> nat"
type_synonym lab = "real \<times> real \<times> real"

text \<open>
  The failures of Python's float arithmetic that the code could meet: a division by
  zero raises, and a negative base under \<^verbatim>\<open>** 0.5\<close> yields a complex number, which
  the later comparison with a float rejects. \<open>TypeError\<close> is what \<^verbatim>\<open>sum\<close> raises on a
  value that is not a sequence of numbers.
\<close>

datatype py_error = ZeroDivisionError | ComplexValue | TypeError

definition py_div :: "real \<Rightarrow> real \<Rightarrow> py_error + real" where
  "py_div a b = (if b = 0 then Inl ZeroDivisionError else Inr (a / b))"

definition py_pow_half :: "real \<Rightarrow> py_error + real" where
  "py_pow_half v = (if v < 0 then Inl ComplexValue else Inr (sqrt v))"

definition bind_err :: "py_error + 'a \<Rightarrow> ('a \<Rightarrow> py_error + 'b) \<Rightarrow> py_error + 'b" where
  "bind_err m f = (case m of Inl e \<Rightarrow> Inl e | Inr v \<Rightarrow> f v)"

text \<open>
  \<^verbatim>\<open>rgb2lab\<close>, lines 1558-1613. The source writes the gamma expansion and the Lab
  companding three times inline, once per channel; both bases are positive where the
  power is taken, so \<^verbatim>\<open>**\<close> is the real power there.
\<close>

definition gamma_expand :: "real \<Rightarrow> real" where
  "gamma_expand v = (if v > 0.04045 then ((v + 0.055) / 1.055) powr 2.4 else v / 12.92)"

definition lab_f :: "real \<Rightarrow> real" where
  "lab_f t = (if t > 0.008856 then t powr (1 / 3) else (7.787 * t) + (16 / 116))"

definition rgb2lab :: "color \<Rightarrow> lab" where
  "rgb2lab rgb =
     (case rgb of (r0, g0, b0) \<Rightarrow>
        let r = gamma_expand (real r0 / 255.0);
            g = gamma_expand (real g0 / 255.0);
            b = gamma_expand (real b0 / 255.0);
            x = (r * 0.4124 + g * 0.3576 + b * 0.1805) * 100;
            y = (r * 0.2126 + g * 0.7152 + b * 0.0722) * 100;
            z = (r * 0.0193 + g * 0.1192 + b * 0.9505) * 100;
            x = lab_f (x / 95.047);
            y = lab_f (y / 100.0);
            z = lab_f (z / 108.883)
        in ((116 * y) - 16, 500 * (x - y), 200 * (y - z)))"

text \<open>
  \<^verbatim>\<open>delta_e_cie94\<close>, lines 1615-1649. \<open>hue_term\<close> is the assignment of \<^verbatim>\<open>dH\<close>
  (lines 1631-1635); every \<^verbatim>\<open>** 0.5\<close> and every division is a step that can fail.
\<close>

definition hue_term :: "real \<Rightarrow> py_error + real" where
  "hue_term dhSquared = (if dhSquared < 0 then Inr 0 else py_pow_half dhSquared)"

definition delta_e_cie94 :: "lab \<Rightarrow> lab \<Rightarrow> py_error + real" where
  "delta_e_cie94 lab1 lab2 =
     (case lab1 of (L1, a1, b1) \<Rightarrow> case lab2 of (L2, a2, b2) \<Rightarrow>
        let dL = L1 - L2; da = a1 - a2; db = b1 - b2 in
        bind_err (py_pow_half (a1\<^sup>2 + b1\<^sup>2)) (\<lambda>c1.
        bind_err (py_pow_half (a2\<^sup>2 + b2\<^sup>2)) (\<lambda>c2.
        let dC = c1 - c2;
            dhSquared = da\<^sup>2 + db\<^sup>2 - dC\<^sup>2 in
        bind_err (hue_term dhSquared) (\<lambda>dH.
        let kL = 1; k1 = 0.045; k2 = 0.015;
            sl = 1;
            sc = 1 + k1 * c1;
            sh = 1 + k2 * c1 in
        bind_err (py_div dL (kL * sl)) (\<lambda>tL.
        bind_err (py_div dC sc) (\<lambda>tC.
        bind_err (py_div dH sh) (\<lambda>tH.
        py_pow_half (tL\<^sup>2 + tC\<^sup>2 + tH\<^sup>2))))))))"

section \<open>The palette matcher\<close>

text \<open>
  \<^verbatim>\<open>find_closest_color\<close>, lines 1532-1556. The model returns the function's result
  together with the calls it made, in order: every \<^verbatim>\<open>rgb2lab\<close> call with its
  argument, and every \<^verbatim>\<open>delta_e_cie94\<close> call with the query and the palette entry
  it compares. \<^verbatim>\<open>float('inf')\<close> is \<open>None\<close> in \<open>min_distance\<close>; the result is
  \<open>None\<close> when \<^verbatim>\<open>closest_color\<close> is still Python's \<^verbatim>\<open>None\<close>.
\<close>

datatype matcher_call = Rgb2Lab color | DeltaE color color

definition below :: "real \<Rightarrow> real option \<Rightarrow> bool" where
  "below d m = (case m of None \<Rightarrow> True | Some v \<Rightarrow> d < v)"

fun palette_loop ::
  "lab \<Rightarrow> color \<Rightarrow> color list \<Rightarrow> real option \<Rightarrow> color option \<Rightarrow> matcher_call list
     \<Rightarrow> (py_error + color option) \<times> matcher_call list" where
  "palette_loop lab1 color [] min_distance closest_color calls = (Inr closest_color, calls)"
| "palette_loop lab1 color (palette_color # rest) min_distance closest_color calls =
     (let lab2 = rgb2lab palette_color;
          calls = calls @ [Rgb2Lab palette_color, DeltaE color palette_color]
      in case delta_e_cie94 lab1 lab2 of
           Inl e \<Rightarrow> (Inl e, calls)
         | Inr distance \<Rightarrow>
             if below distance min_distance
             then palette_loop lab1 color rest (Some distance) (Some palette_color) calls
             else palette_loop lab1 color rest min_distance closest_color calls)"

definition find_closest_color ::
  "color list \<Rightarrow> color \<Rightarrow> (py_error + color option) \<times> matcher_call list" where
  "find_closest_color palette color =
     (if palette = [] then (Inr (Some color), [])
      else let lab1 = rgb2lab color
           in palette_loop lab1 color palette None None [Rgb2Lab color])"

section \<open>Bitmaps and planned actions\<close>

text \<open>
  A processed image as \<^verbatim>\<open>draw_image\<close> reads it: \<^verbatim>\<open>img_data[y, x]\<close> of the numpy
  array and \<^verbatim>\<open>processed_image.getpixel((x, y))\<close>. A pixel of a two-dimensional
  (greyscale) array is \<open>Grey\<close>, of a three-channel array \<open>RGB\<close>, of a four-channel
  array \<open>RGBA\<close>.
\<close>

datatype pixel = Grey nat | RGB nat nat nat | RGBA nat nat nat nat

record bitmap =
  width :: nat
  height :: nat
  getpixel :: "nat \<Rightarrow> nat \<Rightarrow> pixel"

type_synonym point = "real \<times> real"

text \<open>
  The calls on the pointer and on the colour selection, in the order they are made:
  \<open>SelectColor\<close> is \<^verbatim>\<open>set_target_color(color)\<close>, \<open>MoveTo\<close> is \<^verbatim>\<open>pyautogui.moveTo\<close>
  with the button up, \<open>Click\<close> is \<^verbatim>\<open>pyautogui.click()\<close>, \<open>ClickAt\<close> is
  \<^verbatim>\<open>pyautogui.click(x, y)\<close>, \<open>PressDown\<close> and \<open>Release\<close> are \<^verbatim>\<open>mouseDown\<close> and
  \<^verbatim>\<open>mouseUp\<close>, and \<open>DragTo\<close> is the \<^verbatim>\<open>moveTo\<close> issued between them.
\<close>

datatype action =
    SelectColor color
  | MoveTo real real
  | Click
  | ClickAt int int
  | PressDown
  | DragTo real real
  | Release

text \<open>
  The cancellation flag \<^verbatim>\<open>self.stop_drawing\<close> is set by the key listener
  (\<^verbatim>\<open>stop_drawing_callback\<close>, lines 2364-2366), which runs on its own thread: the
  flag changes at any moment of the drawing, also between a test of the flag and the
  action that follows the test, and \<^verbatim>\<open>draw_image\<close> only reads it. With
  \<open>Some (k, seen)\<close> the key is pressed when \<open>k\<close> actions have been completed (the
  next action may be under way). A test made when fewer than \<open>k\<close> actions are
  completed reads the flag unset, and a test made when more than \<open>k\<close> are completed
  reads it set. A test made when exactly \<open>k\<close> are completed reads it set when the key
  was pressed before that test (\<open>seen\<close>), and unset when the test had already passed
  at the time of the key press. With \<open>None\<close> the key is not pressed.
\<close>

type_synonym key_press = "(nat \<times> bool) option"

definition stop_drawing :: "key_press \<Rightarrow> action list \<Rightarrow> bool" where
  "stop_drawing cancel done =
     (case cancel of
        None \<Rightarrow> False
      | Some (k, seen) \<Rightarrow> k < length done \<or> (k = length done \<and> seen))"

text \<open>
  How a style block of \<^verbatim>\<open>draw_image\<close> ends: it returns a value, it raises, or it
  falls through to the clean-up at the end of the function.
\<close>

datatype py_exit = Return bool | Raise py_error | FallThrough

record outcome =
  exit_of :: py_exit
  trace :: "action list"
  notices :: "string list"

section \<open>Pixel style: planning\<close>

definition white_threshold :: nat where
  "white_threshold = 245"

definition pixel_color :: "pixel \<Rightarrow> color" where
  "pixel_color px =
     (case px of Grey v \<Rightarrow> (v, v, v) | RGB r g b \<Rightarrow> (r, g, b) | RGBA r g b a \<Rightarrow> (r, g, b))"

definition is_white :: "color \<Rightarrow> bool" where
  "is_white c =
     (case c of (r, g, b) \<Rightarrow> r \<ge> white_threshold \<and> g \<ge> white_threshold \<and> b \<ge> white_threshold)"

definition is_transparent :: "pixel \<Rightarrow> bool" where
  "is_transparent px = (case px of RGBA r g b a \<Rightarrow> a = 0 | _ \<Rightarrow> False)"

text \<open>The two \<^verbatim>\<open>continue\<close> statements of lines 2120-2128.\<close>

definition skipped :: "pixel \<Rightarrow> bool" where
  "skipped px = (is_white (pixel_color px) \<or> is_transparent px)"

text \<open>\<^verbatim>\<open>for y in range(height): for x in range(width)\<close>, as the list of \<open>(x, y)\<close>.\<close>

definition scan_order :: "nat \<Rightarrow> nat \<Rightarrow> (nat \<times> nat) list" where
  "scan_order w h = concat (map (\<lambda>y. map (\<lambda>x. (x, y)) [0..<w]) [0..<h])"

text \<open>Lines 2138-2139: the centre of pixel \<open>(x, y)\<close> on the canvas.\<close>

definition pixel_pos :: "int \<Rightarrow> int \<Rightarrow> real \<Rightarrow> real \<Rightarrow> nat \<times> nat \<Rightarrow> point" where
  "pixel_pos x1 y1 pixel_width pixel_height xy =
     (case xy of (x, y) \<Rightarrow>
        (real_of_int x1 + (real x * pixel_width) + (pixel_width / 2),
         real_of_int y1 + (real y * pixel_height) + (pixel_height / 2)))"

text \<open>
  A Python dict keeps its keys in insertion order; \<open>dict_append d k v\<close> is
  \<^verbatim>\<open>if k not in d: d[k] = []\<close> followed by \<^verbatim>\<open>d[k].append(v)\<close>.
\<close>

fun dict_append :: "('k \<times> 'v list) list \<Rightarrow> 'k \<Rightarrow> 'v \<Rightarrow> ('k \<times> 'v list) list" where
  "dict_append [] k v = [(k, [v])]"
| "dict_append ((k', vs) # d) k v =
     (if k' = k then (k', vs @ [v]) # d else (k', vs) # dict_append d k v)"

record grouping =
  pixels_by_color :: "(color option \<times> point list) list"
  skipped_pixels :: nat
  matcher_calls :: "matcher_call list"

text \<open>
  Lines 2111-2140, one pixel after the other. A key of \<open>pixels_by_color\<close> is what
  \<^verbatim>\<open>find_closest_color\<close> returned, so it is \<open>None\<close> where that was Python's
  \<^verbatim>\<open>None\<close>; an exception raised by the matcher leaves the loop.
\<close>

fun group_pixels ::
  "color list \<Rightarrow> bitmap \<Rightarrow> int \<Rightarrow> int \<Rightarrow> real \<Rightarrow> real \<Rightarrow> (nat \<times> nat) list \<Rightarrow> grouping
     \<Rightarrow> py_error + grouping" where
  "group_pixels palette img x1 y1 pixel_width pixel_height [] g = Inr g"
| "group_pixels palette img x1 y1 pixel_width pixel_height (xy # rest) g =
     (let px = getpixel img (fst xy) (snd xy) in
      if is_white (pixel_color px)
      then group_pixels palette img x1 y1 pixel_width pixel_height rest
             (g\<lparr>skipped_pixels := skipped_pixels g + 1\<rparr>)
      else if is_transparent px
      then group_pixels palette img x1 y1 pixel_width pixel_height rest
             (g\<lparr>skipped_pixels := skipped_pixels g + 1\<rparr>)
      else
        (case find_closest_color palette (pixel_color px) of
           (Inl e, calls) \<Rightarrow> Inl e
         | (Inr target_color, calls) \<Rightarrow>
             group_pixels palette img x1 y1 pixel_width pixel_height rest
               (g\<lparr>pixels_by_color :=
                    dict_append (pixels_by_color g) target_color
                      (pixel_pos x1 y1 pixel_width pixel_height xy),
                  matcher_calls := matcher_calls g @ calls\<rparr>)))"

text \<open>
  Line 2149: \<^verbatim>\<open>sorted(pixels_by_color.keys(), key=lambda c: sum(c))\<close> is a stable
  sort; \<^verbatim>\<open>sum(None)\<close> raises a \<^verbatim>\<open>TypeError\<close>. The keys of a dict are distinct, so
  sorting the items by the sum of the key and reading \<^verbatim>\<open>pixels_by_color[color]\<close>
  for each sorted key give the same sequence of groups.

  With a palette a key is an entry of the palette, a tuple of Python integers, and
  \<^verbatim>\<open>sum\<close> adds its channels exactly (\<open>channel_sum\<close>). With an empty palette a key
  is the pixel itself as line 2115 or 2118 built it, a tuple of numpy \<^verbatim>\<open>uint8\<close>
  scalars. What \<^verbatim>\<open>sum\<close> returns on such a tuple is decided by numpy, which is not
  part of the repository, and differs between its versions: the exact sum, or the
  sum modulo 256 where the addition of two \<^verbatim>\<open>uint8\<close> scalars wraps. It is the
  parameter \<open>uint8_sum\<close> of the model.
\<close>

definition channel_sum :: "color \<Rightarrow> nat" where
  "channel_sum c = (case c of (r, g, b) \<Rightarrow> r + g + b)"

definition sum_key :: "(color \<Rightarrow> nat) \<Rightarrow> color list \<Rightarrow> color \<Rightarrow> nat" where
  "sum_key uint8_sum palette c = (if palette = [] then uint8_sum c else channel_sum c)"

definition sorted_groups ::
  "(color \<Rightarrow> nat) \<Rightarrow> (color option \<times> point list) list \<Rightarrow> (color \<times> point list) list option" where
  "sorted_groups key d =
     (if None \<in> set (map fst d) then None
      else Some (sort_key (\<lambda>g. key (fst g)) (map (\<lambda>(k, ps). (the k, ps)) d)))"

text \<open>Lines 2169-2181: the points of one colour, put into cells of 20 device units.\<close>

definition GRID_SIZE :: real where
  "GRID_SIZE = 20"

definition cell_key :: "int \<Rightarrow> int \<Rightarrow> point \<Rightarrow> int \<times> int" where
  "cell_key x1 y1 p =
     (\<lfloor>(fst p - real_of_int x1) / GRID_SIZE\<rfloor>, \<lfloor>(snd p - real_of_int y1) / GRID_SIZE\<rfloor>)"

fun fill_cells :: "int \<Rightarrow> int \<Rightarrow> point list \<Rightarrow> ((int \<times> int) \<times> point list) list
     \<Rightarrow> ((int \<times> int) \<times> point list) list" where
  "fill_cells x1 y1 [] cells = cells"
| "fill_cells x1 y1 (p # ps) cells = fill_cells x1 y1 ps (dict_append cells (cell_key x1 y1 p) p)"

definition grid_cells :: "int \<Rightarrow> int \<Rightarrow> point list \<Rightarrow> point list list" where
  "grid_cells x1 y1 pixels = map snd (fill_cells x1 y1 pixels [])"

text \<open>
  Lines 2186-2205: the nearest-neighbour order of one cell. \<open>point_dist\<close> is the
  expression of line 2198, \<open>nearest\<close> is the inner
  \<^verbatim>\<open>for i, pixel in enumerate(remaining)\<close> with its two variables, \<open>pop\<close> is
  \<^verbatim>\<open>remaining.pop(nearest_idx)\<close>, and \<open>nearest_loop\<close> is the \<^verbatim>\<open>while remaining\<close>.
\<close>

definition point_dist :: "point \<Rightarrow> point \<Rightarrow> real" where
  "point_dist pixel last_pt = sqrt ((fst pixel - fst last_pt)\<^sup>2 + (snd pixel - snd last_pt)\<^sup>2)"

fun nearest :: "point \<Rightarrow> point list \<Rightarrow> nat \<Rightarrow> nat \<Rightarrow> real option \<Rightarrow> nat" where
  "nearest last_pt [] i nearest_idx nearest_dist = nearest_idx"
| "nearest last_pt (pixel # rest) i nearest_idx nearest_dist =
     (if below (point_dist pixel last_pt) nearest_dist
      then nearest last_pt rest (i + 1) i (Some (point_dist pixel last_pt))
      else nearest last_pt rest (i + 1) nearest_idx nearest_dist)"

definition pop :: "'a list \<Rightarrow> nat \<Rightarrow> 'a list" where
  "pop xs i = take i xs @ drop (Suc i) xs"

text \<open>
  \<^verbatim>\<open>nearest_idx\<close> is 0 or an index that the enumeration reached, so
  \<^verbatim>\<open>remaining.pop(nearest_idx)\<close> never raises on a non-empty list and shortens it.
\<close>

lemma nearest_range:
  "nearest last_pt xs i idx nd = idx \<or>
   (i \<le> nearest last_pt xs i idx nd \<and> nearest last_pt xs i idx nd < i + length xs)"
proof (induction xs arbitrary: i idx nd)
  case Nil
  show ?case by simp
next
  case (Cons p ps)
  show ?case
  proof (cases "below (point_dist p last_pt) nd")
    case True
    from Cons.IH [of "i + 1" i "Some (point_dist p last_pt)"] True show ?thesis
      by auto
  next
    case False
    from Cons.IH [of "i + 1" idx nd] False show ?thesis
      by auto
  qed
qed

lemma nearest_index: "xs \<noteq> [] \<Longrightarrow> nearest last_pt xs 0 0 nd < length xs"
  using nearest_range [of last_pt xs 0 0 nd] by (cases xs) auto

function nearest_loop :: "point list \<Rightarrow> point list \<Rightarrow> point list" where
  "nearest_loop sorted_pixels remaining =
     (if remaining = [] then sorted_pixels
      else let nearest_idx = nearest (last sorted_pixels) remaining 0 0 None
           in nearest_loop (sorted_pixels @ [remaining ! nearest_idx]) (pop remaining nearest_idx))"
  by pat_completeness auto
termination
proof (relation "measure (\<lambda>(s, r). length r)")
  show "wf (measure (\<lambda>(s, r). length r))"
    by simp
next
  fix sorted_pixels remaining :: "point list" and x :: nat
  assume "remaining \<noteq> []" and "x = nearest (last sorted_pixels) remaining 0 0 None"
  then have "x < length remaining"
    by (simp add: nearest_index)
  then show "((sorted_pixels @ [remaining ! x], pop remaining x), (sorted_pixels, remaining))
      \<in> measure (\<lambda>(s, r). length r)"
    by (simp add: pop_def)
qed

fun order_cell :: "point list \<Rightarrow> point list" where
  "order_cell (p # q # rest) = nearest_loop [p] (q # rest)"
| "order_cell cell_pixels = cell_pixels"

section \<open>Pixel style: drawing\<close>

text \<open>
  Lines 2152-2228. Each function returns the actions completed so far and whether the
  loop left through \<^verbatim>\<open>return True\<close> after reading the cancellation flag. The flag
  is read before \<^verbatim>\<open>set_target_color\<close> and before each \<^verbatim>\<open>moveTo\<close>; the \<^verbatim>\<open>click\<close>
  follows its \<^verbatim>\<open>moveTo\<close> without a further test.
\<close>

fun draw_cell :: "key_press \<Rightarrow> point list \<Rightarrow> action list \<Rightarrow> action list \<times> bool" where
  "draw_cell cancel [] done = (done, False)"
| "draw_cell cancel (p # ps) done =
     (if stop_drawing cancel done then (done, True)
      else draw_cell cancel ps (done @ [MoveTo (fst p) (snd p), Click]))"

fun draw_cells :: "key_press \<Rightarrow> point list list \<Rightarrow> action list \<Rightarrow> action list \<times> bool" where
  "draw_cells cancel [] done = (done, False)"
| "draw_cells cancel (cell_pixels # cells) done =
     (case draw_cell cancel (order_cell cell_pixels) done of
        (done', True) \<Rightarrow> (done', True)
      | (done', False) \<Rightarrow> draw_cells cancel cells done')"

fun draw_colors ::
  "key_press \<Rightarrow> int \<Rightarrow> int \<Rightarrow> (color \<times> point list) list \<Rightarrow> action list \<Rightarrow> action list \<times> bool" where
  "draw_colors cancel x1 y1 [] done = (done, False)"
| "draw_colors cancel x1 y1 ((color, pixels) # groups) done =
     (if stop_drawing cancel done then (done, True)
      else case draw_cells cancel (grid_cells x1 y1 pixels) (done @ [SelectColor color]) of
             (done', True) \<Rightarrow> (done', True)
           | (done', False) \<Rightarrow> draw_colors cancel x1 y1 groups done')"

definition empty_grouping :: grouping where
  "empty_grouping = \<lparr>pixels_by_color = [], skipped_pixels = 0, matcher_calls = []\<rparr>"

text \<open>
  The pixel branch of \<^verbatim>\<open>draw_image\<close>, lines 2097-2233, for a bitmap, a palette, the
  canvas corner and the pixel size computed before it, and the sum that numpy gives
  on a pixel (used only with an empty palette). An exception leaves through
  the handler of line 2357. The pauses, the log lines and the clock they read are not
  part of the model.
\<close>

definition plan_pixels ::
  "color list \<Rightarrow> bitmap \<Rightarrow> int \<Rightarrow> int \<Rightarrow> real \<Rightarrow> real \<Rightarrow> py_error + grouping" where
  "plan_pixels palette img x1 y1 pixel_width pixel_height =
     group_pixels palette img x1 y1 pixel_width pixel_height
       (scan_order (width img) (height img)) empty_grouping"

definition draw_pixel_style ::
  "key_press \<Rightarrow> (color \<Rightarrow> nat) \<Rightarrow> color list \<Rightarrow> bitmap \<Rightarrow> int \<Rightarrow> int \<Rightarrow> real \<Rightarrow> real \<Rightarrow> outcome" where
  "draw_pixel_style cancel uint8_sum palette img x1 y1 pixel_width pixel_height =
     (case plan_pixels palette img x1 y1 pixel_width pixel_height of
        Inl e \<Rightarrow> \<lparr>exit_of = Raise e, trace = [], notices = []\<rparr>
      | Inr g \<Rightarrow>
          (case sorted_groups (sum_key uint8_sum palette) (pixels_by_color g) of
             None \<Rightarrow> \<lparr>exit_of = Raise TypeError, trace = [], notices = []\<rparr>
           | Some groups \<Rightarrow>
               (case draw_colors cancel x1 y1 groups [] of
                  (done, True) \<Rightarrow> \<lparr>exit_of = Return True, trace = done, notices = []\<rparr>
                | (done, False) \<Rightarrow> \<lparr>exit_of = FallThrough, trace = done, notices = []\<rparr>)))"

section \<open>Outline style\<close>

text \<open>
  Lines 2239-2246: the dark pixels, in scan order. \<^verbatim>\<open>sum(pixel)\<close> adds every band
  that \<^verbatim>\<open>getpixel\<close> returns, and raises on the single integer of a greyscale image.
\<close>

definition pixel_sum :: "pixel \<Rightarrow> py_error + nat" where
  "pixel_sum px =
     (case px of Grey v \<Rightarrow> Inl TypeError
               | RGB r g b \<Rightarrow> Inr (r + g + b)
               | RGBA r g b a \<Rightarrow> Inr (r + g + b + a))"

fun find_outline_pixels ::
  "bitmap \<Rightarrow> (nat \<times> nat) list \<Rightarrow> (int \<times> int) list \<Rightarrow> py_error + (int \<times> int) list" where
  "find_outline_pixels img [] outline_pixels = Inr outline_pixels"
| "find_outline_pixels img (xy # rest) outline_pixels =
     (case pixel_sum (getpixel img (fst xy) (snd xy)) of
        Inl e \<Rightarrow> Inl e
      | Inr s \<Rightarrow>
          if s < 450
          then find_outline_pixels img rest (outline_pixels @ [(int (fst xy), int (snd xy))])
          else find_outline_pixels img rest outline_pixels)"

text \<open>
  Lines 2272-2306: the segments. \<open>next_point\<close> is the \<^verbatim>\<open>for dx, dy in directions\<close>
  loop, which stops at the first neighbour that is an outline pixel and not visited;
  \<open>extend_segment\<close> is the \<^verbatim>\<open>while not self.stop_drawing\<close> loop. These loops read
  the flag in every round and make no action. \<open>stop\<close> is the value that the first
  test of the drawing loop (line 2311) reads, taken for all these reads: when the key
  is pressed while the segments are built, the loops end early, that first test reads
  the flag set and no stroke is drawn, which are the actions of \<open>stop = True\<close>.
\<close>

definition directions :: "(int \<times> int) list" where
  "directions = [(-1, -1), (-1, 0), (-1, 1), (0, -1), (0, 1), (1, -1), (1, 0), (1, 1)]"

definition next_point ::
  "(int \<times> int) list \<Rightarrow> (int \<times> int) list \<Rightarrow> int \<times> int \<Rightarrow> (int \<times> int) option" where
  "next_point outline_pixels visited current =
     find (\<lambda>n. n \<in> set outline_pixels \<and> n \<notin> set visited)
       (map (\<lambda>d. (fst current + fst d, snd current + snd d)) directions)"

lemma next_point_fresh:
  "next_point outline_pixels visited current = Some n \<Longrightarrow>
   n \<in> set outline_pixels \<and> n \<notin> set visited"
  unfolding next_point_def by (auto simp: find_Some_iff)

function extend_segment ::
  "bool \<Rightarrow> (int \<times> int) list \<Rightarrow> (int \<times> int) list \<Rightarrow> int \<times> int \<Rightarrow> (int \<times> int) list
     \<Rightarrow> (int \<times> int) list \<times> (int \<times> int) list" where
  "extend_segment stop outline_pixels visited current segment =
     (if stop then (segment, visited)
      else case next_point outline_pixels visited current of
             None \<Rightarrow> (segment, visited)
           | Some n \<Rightarrow> extend_segment stop outline_pixels (n # visited) n (segment @ [n]))"
  by pat_completeness auto
termination
proof (relation "measure (\<lambda>(stop, outline_pixels, visited, current, segment).
    card (set outline_pixels - set visited))")
  show "wf (measure (\<lambda>(stop, outline_pixels, visited, current, segment).
    card (set outline_pixels - set visited)))"
    by simp
next
  fix stop :: bool and outline_pixels visited segment :: "(int \<times> int) list"
    and current n :: "int \<times> int"
  assume "next_point outline_pixels visited current = Some n"
  then have fresh: "n \<in> set outline_pixels" "n \<notin> set visited"
    using next_point_fresh by blast+
  then have "set outline_pixels - set (n # visited) \<subset> set outline_pixels - set visited"
    by auto
  then have "card (set outline_pixels - set (n # visited)) < card (set outline_pixels - set visited)"
    by (intro psubset_card_mono) simp_all
  then show "((stop, outline_pixels, n # visited, n, segment @ [n]),
      (stop, outline_pixels, visited, current, segment))
      \<in> measure (\<lambda>(stop, outline_pixels, visited, current, segment).
          card (set outline_pixels - set visited))"
    by simp
qed

fun group_segments ::
  "bool \<Rightarrow> (int \<times> int) list \<Rightarrow> (int \<times> int) list \<Rightarrow> (int \<times> int) list
     \<Rightarrow> (int \<times> int) list list \<Rightarrow> (int \<times> int) list list" where
  "group_segments stop outline_pixels [] visited line_segments = line_segments"
| "group_segments stop outline_pixels (pt # rest) visited line_segments =
     (if pt \<in> set visited \<or> stop
      then group_segments stop outline_pixels rest visited line_segments
      else case extend_segment stop outline_pixels (pt # visited) pt [pt] of
             (segment, visited') \<Rightarrow>
               group_segments stop outline_pixels rest visited'
                 (if length segment > 1 then line_segments @ [segment] else line_segments))"

text \<open>
  Lines 2310-2348: one stroke per segment. The flag is read once for each segment,
  before its stroke (line 2311), and not again until the stroke is released.
  A segment of \<open>line_segments\<close> has at least two points (line 2305), so
  \<^verbatim>\<open>segment[0]\<close> exists; the empty case is never reached.
\<close>

definition canvas_point :: "int \<Rightarrow> int \<Rightarrow> int \<times> int \<Rightarrow> point" where
  "canvas_point x1 y1 xy = (real_of_int (x1 + fst xy), real_of_int (y1 + snd xy))"

definition stroke :: "int \<Rightarrow> int \<Rightarrow> (int \<times> int) list \<Rightarrow> action list" where
  "stroke x1 y1 segment =
     (case segment of
        [] \<Rightarrow> []
      | first # others \<Rightarrow>
          [MoveTo (fst (canvas_point x1 y1 first)) (snd (canvas_point x1 y1 first)), PressDown]
          @ map (\<lambda>xy. DragTo (fst (canvas_point x1 y1 xy)) (snd (canvas_point x1 y1 xy))) others
          @ [Release])"

fun draw_segments ::
  "key_press \<Rightarrow> int \<Rightarrow> int \<Rightarrow> (int \<times> int) list list \<Rightarrow> action list \<Rightarrow> action list" where
  "draw_segments cancel x1 y1 [] done = done"
| "draw_segments cancel x1 y1 (segment # rest) done =
     (if stop_drawing cancel done then done
      else draw_segments cancel x1 y1 rest (done @ stroke x1 y1 segment))"

text \<open>
  The outline branch of \<^verbatim>\<open>draw_image\<close>, lines 2235-2351. \<open>color_positions\<close> is the
  dict of that name; an empty dict and a missing key both take the \<^verbatim>\<open>else\<close> branch
  of line 2261.
\<close>

definition black_position ::
  "(color \<rightharpoonup> int \<times> int) \<Rightarrow> color option \<Rightarrow> (int \<times> int) option" where
  "black_position color_positions black_color =
     (case black_color of None \<Rightarrow> None | Some c \<Rightarrow> color_positions c)"

definition draw_outline_style ::
  "key_press \<Rightarrow> color list \<Rightarrow> (color \<rightharpoonup> int \<times> int) \<Rightarrow> bitmap \<Rightarrow> int \<Rightarrow> int \<Rightarrow> outcome" where
  "draw_outline_style cancel palette color_positions img x1 y1 =
     (case find_outline_pixels img (scan_order (width img) (height img)) [] of
        Inl e \<Rightarrow> \<lparr>exit_of = Raise e, trace = [], notices = []\<rparr>
      | Inr outline_pixels \<Rightarrow>
          if length outline_pixels = 0
          then \<lparr>exit_of = Return False, trace = [],
                 notices = [''No outline pixels found in the image'']\<rparr>
          else
            (case fst (find_closest_color palette (0, 0, 0)) of
               Inl e \<Rightarrow> \<lparr>exit_of = Raise e, trace = [], notices = []\<rparr>
             | Inr black_color \<Rightarrow>
                 (case black_position color_positions black_color of
                    None \<Rightarrow> \<lparr>exit_of = Return False, trace = [],
                              notices = [''Please click on the black color in your drawing program, then press OK to continue'']\<rparr>
                  | Some (color_x, color_y) \<Rightarrow>
                      let done = [ClickAt color_x color_y];
                          line_segments =
                            group_segments (stop_drawing cancel done) outline_pixels
                              outline_pixels [] []
                      in \<lparr>exit_of = FallThrough,
                           trace = draw_segments cancel x1 y1 line_segments done,
                           notices = []\<rparr>)))"

section \<open>The drawing operation and its callers\<close>

record auto_draw =
  processed_image :: "bitmap option"
  palette :: "color list"
  style :: string
  canvas_area :: "(int \<times> int \<times> int \<times> int) option"
  color_positions :: "color \<rightharpoonup> int \<times> int"
  screen_size :: "int \<times> int"
  numpy_sum :: "color \<Rightarrow> nat"

text \<open>
  Lines 2071-2079: the canvas area, centred on the screen when none is set.
\<close>

definition area_of :: "auto_draw \<Rightarrow> bitmap \<Rightarrow> int \<times> int \<times> int \<times> int" where
  "area_of self img =
     (case canvas_area self of
        Some a \<Rightarrow> a
      | None \<Rightarrow>
          (let x1 = (fst (screen_size self) - int (width img)) div 2;
               y1 = (snd (screen_size self) - int (height img)) div 2
           in (x1, y1, x1 + int (width img), y1 + int (height img))))"

text \<open>
  \<^verbatim>\<open>draw_image\<close>, lines 2043-2362: its return value, the actions it made and the
  message boxes it showed. The divisions of lines 2082-2083 raise on an empty image;
  the handler of line 2357 shows an error and returns \<^verbatim>\<open>False\<close>. The move to the
  canvas corner (line 2088) precedes the actions of the style branch, and the key
  press \<open>cancel\<close> counts the actions of that branch. \<open>screen_size\<close> is what
  \<^verbatim>\<open>pyautogui.size()\<close> returns and \<open>numpy_sum\<close> what \<^verbatim>\<open>sum\<close> returns on a tuple of
  numpy \<^verbatim>\<open>uint8\<close> scalars.
\<close>

definition finish :: "action list \<Rightarrow> outcome \<Rightarrow> outcome" where
  "finish before r =
     (case exit_of r of
        Return v \<Rightarrow> \<lparr>exit_of = Return v, trace = before @ trace r, notices = notices r\<rparr>
      | FallThrough \<Rightarrow> \<lparr>exit_of = Return True, trace = before @ trace r, notices = notices r\<rparr>
      | Raise e \<Rightarrow> \<lparr>exit_of = Return False, trace = before @ trace r,
                     notices = notices r @ [''Failed to draw image'']\<rparr>)"

definition draw_image :: "key_press \<Rightarrow> auto_draw \<Rightarrow> outcome" where
  "draw_image cancel self =
     (case processed_image self of
        None \<Rightarrow> \<lparr>exit_of = Return False, trace = [], notices = []\<rparr>
      | Some img \<Rightarrow>
          (case area_of self img of (x1, y1, x2, y2) \<Rightarrow>
             if width img = 0 \<or> height img = 0
             then finish [] \<lparr>exit_of = Raise ZeroDivisionError, trace = [], notices = []\<rparr>
             else
               let pixel_width = real_of_int (x2 - x1) / real (width img);
                   pixel_height = real_of_int (y2 - y1) / real (height img);
                   before = [MoveTo (real_of_int x1) (real_of_int y1)]
               in if style self = ''pixel''
                  then finish before
                         (draw_pixel_style cancel (numpy_sum self) (palette self) img x1 y1
                            pixel_width pixel_height)
                  else if style self = ''outline''
                  then finish before
                         (draw_outline_style cancel (palette self) (color_positions self) img x1 y1)
                  else finish before \<lparr>exit_of = FallThrough, trace = [], notices = []\<rparr>))"

text \<open>
  What the callers make of the return value (\<^verbatim>\<open>start_drawing\<close>, lines 3748-3755, and
  \<^verbatim>\<open>run_cli_mode\<close>, lines 3888-3897): \<^verbatim>\<open>False\<close> is reported as a failed drawing.
\<close>

datatype status = Drawing_stopped_by_user | Drawing_completed_successfully | Drawing_failed

definition drawing_status :: "outcome \<Rightarrow> bool \<Rightarrow> status" where
  "drawing_status r stop =
     (if exit_of r = Return True
      then (if stop then Drawing_stopped_by_user else Drawing_completed_successfully)
      else Drawing_failed)"

section \<open>Background marking\<close>

text \<open>
  \<^verbatim>\<open>AutoDraw.process_image\<close>, lines 1677-1708, and \<^verbatim>\<open>SimpleAutoDraw.process_image\<close>,
  lines 77-100 of \<^verbatim>\<open>auto_draw_cli.py\<close>: the loop that sets the alpha band of a white
  pixel to 0. Both write their threshold as a constant of the function: 245
  (line 1690) and 240 (line 86 of the command-line file).

  \<^verbatim>\<open>AutoDraw.process_image\<close> first converts the image to RGB (lines 1678-1679), which
  drops an alpha band, and only then, when white is skipped, to RGBA (line 1685): every
  pixel enters the marking loop with alpha 255. \<^verbatim>\<open>SimpleAutoDraw\<close> converts to RGBA
  only (line 51, and line 80 for an image set otherwise), so a pixel keeps the alpha
  it was loaded with and a pixel without an alpha band gets 255.
\<close>

definition to_rgba :: "pixel \<Rightarrow> nat \<times> nat \<times> nat \<times> nat" where
  "to_rgba px =
     (case px of Grey v \<Rightarrow> (v, v, v, 255)
               | RGB r g b \<Rightarrow> (r, g, b, 255)
               | RGBA r g b a \<Rightarrow> (r, g, b, a))"

definition mark_pixel :: "nat \<Rightarrow> pixel \<Rightarrow> pixel" where
  "mark_pixel threshold px =
     (case to_rgba px of (r, g, b, a) \<Rightarrow>
        if r \<ge> threshold \<and> g \<ge> threshold \<and> b \<ge> threshold then RGBA r g b 0 else RGBA r g b a)"

definition cli_white_threshold :: nat where
  "cli_white_threshold = 240"

definition convert_rgb :: "pixel \<Rightarrow> pixel" where
  "convert_rgb px = (case pixel_color px of (r, g, b) \<Rightarrow> RGB r g b)"

definition mark_white :: "bool \<Rightarrow> bitmap \<Rightarrow> bitmap" where
  "mark_white skip_white img =
     (let rgb = img\<lparr>getpixel := \<lambda>x y. convert_rgb (getpixel img x y)\<rparr>
      in if skip_white
         then rgb\<lparr>getpixel := \<lambda>x y. mark_pixel white_threshold (getpixel rgb x y)\<rparr>
         else rgb)"

definition cli_mark_white :: "bool \<Rightarrow> bitmap \<Rightarrow> bitmap" where
  "cli_mark_white skip_white img =
     (if skip_white then img\<lparr>getpixel := \<lambda>x y. mark_pixel cli_white_threshold (getpixel img x y)\<rparr>
      else img)"

text \<open>
  \<^verbatim>\<open>SimpleAutoDraw.draw_image\<close>, lines 165-216 of \<^verbatim>\<open>auto_draw_cli.py\<close>: every pixel
  whose alpha is not 0 is drawn, in scan order, after a move to the canvas corner.
\<close>

definition cli_pixels_to_draw :: "bitmap \<Rightarrow> int \<Rightarrow> int \<Rightarrow> real \<Rightarrow> real \<Rightarrow> point list" where
  "cli_pixels_to_draw img x1 y1 pixel_width pixel_height =
     map (pixel_pos x1 y1 pixel_width pixel_height)
       (filter (\<lambda>xy. \<not> is_transparent (getpixel img (fst xy) (snd xy)))
          (scan_order (width img) (height img)))"

fun cli_draw_loop :: "key_press \<Rightarrow> point list \<Rightarrow> action list \<Rightarrow> action list" where
  "cli_draw_loop cancel [] done = done"
| "cli_draw_loop cancel (p # ps) done =
     (if stop_drawing cancel done then done
      else cli_draw_loop cancel ps (done @ [MoveTo (fst p) (snd p), Click]))"

definition cli_draw_pixels ::
  "key_press \<Rightarrow> bitmap \<Rightarrow> int \<Rightarrow> int \<Rightarrow> real \<Rightarrow> real \<Rightarrow> action list" where
  "cli_draw_pixels cancel img x1 y1 pixel_width pixel_height =
     cli_draw_loop cancel (cli_pixels_to_draw img x1 y1 pixel_width pixel_height) []"

section \<open>Notions used in the statements\<close>

text \<open>
  The value that \<^verbatim>\<open>delta_e_cie94\<close> returns (it always returns one, see
  \<open>delta_e_cie94_returns\<close> below), the distance that \<^verbatim>\<open>find_closest_color\<close>
  computes between the query colour and a palette entry, and the value that
  \<^verbatim>\<open>find_closest_color\<close> returns.
\<close>

definition lab_distance :: "lab \<Rightarrow> lab \<Rightarrow> real" where
  "lab_distance lab1 lab2 = (case delta_e_cie94 lab1 lab2 of Inl e \<Rightarrow> 0 | Inr d \<Rightarrow> d)"

definition color_distance :: "color \<Rightarrow> color \<Rightarrow> real" where
  "color_distance c p = lab_distance (rgb2lab c) (rgb2lab p)"

definition matched :: "color list \<Rightarrow> color \<Rightarrow> color option" where
  "matched pal c = (case fst (find_closest_color pal c) of Inl e \<Rightarrow> None | Inr t \<Rightarrow> t)"

text \<open>
  Entry \<open>i\<close> of a palette is the first of the entries nearest to \<open>c\<close>: no entry is
  nearer, and every earlier entry is farther.
\<close>

definition first_min :: "color \<Rightarrow> color list \<Rightarrow> nat \<Rightarrow> bool" where
  "first_min c ps i =
     (i < length ps \<and>
      (\<forall>j < length ps. color_distance c (ps ! i) \<le> color_distance c (ps ! j)) \<and>
      (\<forall>j < i. color_distance c (ps ! i) < color_distance c (ps ! j)))"

text \<open>
  The colour of a pixel as line 2115 or 2118 reads it, the pixels that the loop of
  lines 2111-2140 does not skip, and the calls that the matcher made during that loop.
  \<open>bitmap_of_rows\<close> writes a bitmap as its rows of pixels.
\<close>

definition color_at :: "bitmap \<Rightarrow> nat \<times> nat \<Rightarrow> color" where
  "color_at img xy = pixel_color (getpixel img (fst xy) (snd xy))"

definition drawn :: "bitmap \<Rightarrow> nat \<times> nat \<Rightarrow> bool" where
  "drawn img xy = (\<not> skipped (getpixel img (fst xy) (snd xy)))"

definition visible_pixels :: "bitmap \<Rightarrow> (nat \<times> nat) list" where
  "visible_pixels img = filter (drawn img) (scan_order (width img) (height img))"

definition planning_calls :: "color list \<Rightarrow> bitmap \<Rightarrow> int \<Rightarrow> int \<Rightarrow> real \<Rightarrow> real \<Rightarrow> matcher_call list" where
  "planning_calls pal img x1 y1 pixel_width pixel_height =
     (case plan_pixels pal img x1 y1 pixel_width pixel_height of
        Inl e \<Rightarrow> [] | Inr g \<Rightarrow> matcher_calls g)"

definition bitmap_of_rows :: "pixel list list \<Rightarrow> bitmap" where
  "bitmap_of_rows rows =
     \<lparr>width = (case rows of [] \<Rightarrow> 0 | r # _ \<Rightarrow> length r), height = length rows,
      getpixel = (\<lambda>x y. rows ! y ! x)\<rparr>"

text \<open>
  The predicate of line 2245 on a pixel that \<^verbatim>\<open>sum\<close> accepts, and the outline pixels
  it selects from a list of coordinates.
\<close>

definition dark :: "pixel \<Rightarrow> bool" where
  "dark px = (case pixel_sum px of Inl e \<Rightarrow> False | Inr s \<Rightarrow> s < 450)"

definition outline_of :: "bitmap \<Rightarrow> (nat \<times> nat) list \<Rightarrow> (int \<times> int) list" where
  "outline_of img coords =
     map (\<lambda>xy. (int (fst xy), int (snd xy)))
       (filter (\<lambda>xy. dark (getpixel img (fst xy) (snd xy))) coords)"

text \<open>
  Readings of an action stream: the targets of its moves, the colours it selects, and
  whether an action is a colour selection. \<open>clicks\<close> is one move and one click for
  each point of a list, and \<open>planned_group\<close> the stream of one colour group: the
  selection of the colour, then the clicks of its cells, each cell in its
  nearest-neighbour order.
\<close>

fun move_targets :: "action list \<Rightarrow> point list" where
  "move_targets [] = []"
| "move_targets (MoveTo x y # rest) = (x, y) # move_targets rest"
| "move_targets (a # rest) = move_targets rest"

fun selected_colors :: "action list \<Rightarrow> color list" where
  "selected_colors [] = []"
| "selected_colors (SelectColor c # rest) = c # selected_colors rest"
| "selected_colors (a # rest) = selected_colors rest"

definition is_selection :: "action \<Rightarrow> bool" where
  "is_selection a = (case a of SelectColor c \<Rightarrow> True | _ \<Rightarrow> False)"

definition clicks :: "point list \<Rightarrow> action list" where
  "clicks ps = concat (map (\<lambda>p. [MoveTo (fst p) (snd p), Click]) ps)"

definition planned_group :: "int \<Rightarrow> int \<Rightarrow> color \<times> point list \<Rightarrow> action list" where
  "planned_group x1 y1 g =
     SelectColor (fst g) # clicks (concat (map order_cell (grid_cells x1 y1 (snd g))))"

text \<open>
  A straight line of pixels: \<open>n\<close> points from \<open>start\<close>, each the 8-neighbour of the one
  before in the direction \<open>dir\<close>. Every such line runs in one of the four directions
  of \<open>line_directions\<close> (right, down, down-right, down-left) when it is read from
  the end that the scan of lines 2241-2242 meets first. \<open>scan_before\<close> is the order of
  that scan: by row, and within a row by column.
\<close>

definition line_directions :: "(int \<times> int) list" where
  "line_directions = [(1, 0), (0, 1), (1, 1), (-1, 1)]"

definition line_point :: "int \<times> int \<Rightarrow> int \<times> int \<Rightarrow> nat \<Rightarrow> int \<times> int" where
  "line_point start dir i = (fst start + int i * fst dir, snd start + int i * snd dir)"

definition line_points :: "int \<times> int \<Rightarrow> int \<times> int \<Rightarrow> nat \<Rightarrow> (int \<times> int) list" where
  "line_points start dir n = map (line_point start dir) [0..<n]"

definition scan_before :: "int \<times> int \<Rightarrow> int \<times> int \<Rightarrow> bool" where
  "scan_before p q = (snd p < snd q \<or> (snd p = snd q \<and> fst p < fst q))"

section \<open>Properties of the colour distance\<close>

lemma bind_err_Inr [simp]: "bind_err (Inr v) f = f v"
  by (simp add: bind_err_def)

lemma bind_err_Inl [simp]: "bind_err (Inl e) f = Inl e"
  by (simp add: bind_err_def)

lemma py_pow_half_sum2 [simp]: "py_pow_half (a\<^sup>2 + b\<^sup>2) = Inr (sqrt (a\<^sup>2 + b\<^sup>2))"
  by (simp add: py_pow_half_def not_less)

lemma py_pow_half_sum3 [simp]:
  "py_pow_half (a\<^sup>2 + b\<^sup>2 + c\<^sup>2) = Inr (sqrt (a\<^sup>2 + b\<^sup>2 + c\<^sup>2))"
  by (simp add: py_pow_half_def not_less)

lemma hue_term_value: "hue_term v = Inr (if v < 0 then 0 else sqrt v)"
  by (simp add: hue_term_def py_pow_half_def)

text \<open>
  Over the reals no step of \<^verbatim>\<open>delta_e_cie94\<close> fails: the chroma weights \<open>sc\<close> and
  \<open>sh\<close> are at least 1, and every base of a square root is a sum of squares or the
  clamped hue term. The value under the hue root, \<open>da\<^sup>2 + db\<^sup>2 - dC\<^sup>2\<close>, is itself
  never negative over the reals; it becomes negative only through the rounding of
  the double format, which is why the code clamps it, and that is outside this model.
\<close>

lemma delta_e_cie94_formula:
  "delta_e_cie94 (L1, a1, b1) (L2, a2, b2) =
     (let c1 = sqrt (a1\<^sup>2 + b1\<^sup>2); c2 = sqrt (a2\<^sup>2 + b2\<^sup>2);
          dC = c1 - c2;
          dhSquared = (a1 - a2)\<^sup>2 + (b1 - b2)\<^sup>2 - dC\<^sup>2;
          dH = (if dhSquared < 0 then 0 else sqrt dhSquared)
      in Inr (sqrt ((L1 - L2)\<^sup>2 + (dC / (1 + 0.045 * c1))\<^sup>2 + (dH / (1 + 0.015 * c1))\<^sup>2)))"
proof -
  have c1: "0 \<le> sqrt (a1\<^sup>2 + b1\<^sup>2)"
    by simp
  have "1 + 3 * sqrt (a1\<^sup>2 + b1\<^sup>2) / 200 > 0" "1 + 9 * sqrt (a1\<^sup>2 + b1\<^sup>2) / 200 > 0"
    using c1 by linarith+
  then show ?thesis
    by (simp add: delta_e_cie94_def hue_term_value py_div_def Let_def)
qed

lemma delta_e_cie94_returns: "\<exists>d. delta_e_cie94 lab1 lab2 = Inr d \<and> 0 \<le> d"
proof -
  obtain L1 a1 b1 L2 a2 b2 where "lab1 = (L1, a1, b1)" "lab2 = (L2, a2, b2)"
    by (metis prod_cases3)
  then show ?thesis
    by (simp add: delta_e_cie94_formula Let_def)
qed

lemma delta_e_cie94_distance: "delta_e_cie94 lab1 lab2 = Inr (lab_distance lab1 lab2)"
  using delta_e_cie94_returns [of lab1 lab2] by (auto simp: lab_distance_def)

lemma lab_distance_nonneg: "0 \<le> lab_distance lab1 lab2"
  using delta_e_cie94_returns [of lab1 lab2] by (auto simp: lab_distance_def)

section \<open>Properties of the palette matcher\<close>

lemma palette_loop_step:
  "palette_loop (rgb2lab c) c (p # ps) md cc calls =
     (if below (color_distance c p) md
      then palette_loop (rgb2lab c) c ps (Some (color_distance c p)) (Some p)
             (calls @ [Rgb2Lab p, DeltaE c p])
      else palette_loop (rgb2lab c) c ps md cc (calls @ [Rgb2Lab p, DeltaE c p]))"
  by (simp add: delta_e_cie94_distance color_distance_def Let_def)

lemma palette_loop_calls:
  "snd (palette_loop l c ps md cc calls) = calls @ concat (map (\<lambda>p. [Rgb2Lab p, DeltaE c p]) ps)"
proof (induction ps arbitrary: md cc calls)
  case Nil
  show ?case by simp
next
  case (Cons p ps)
  show ?case
    by (simp add: delta_e_cie94_distance Let_def Cons.IH)
qed

lemma first_min_0:
  "\<forall>q \<in> set ps. color_distance c p \<le> color_distance c q \<Longrightarrow> first_min c (p # ps) 0"
  by (auto simp: first_min_def nth_Cons')

lemma first_min_Suc:
  "first_min c ps i \<Longrightarrow> color_distance c (ps ! i) < color_distance c p \<Longrightarrow>
   first_min c (p # ps) (Suc i)"
  by (auto simp: first_min_def nth_Cons' less_Suc_eq_0_disj)

lemma palette_loop_result:
  "\<exists>r. fst (palette_loop (rgb2lab c) c ps md cc calls) = Inr r \<and>
     (case md of
        None \<Rightarrow> (ps = [] \<and> r = cc) \<or> (\<exists>i. first_min c ps i \<and> r = Some (ps ! i))
      | Some m \<Rightarrow>
          (r = cc \<and> (\<forall>q \<in> set ps. m \<le> color_distance c q)) \<or>
          (\<exists>i. first_min c ps i \<and> r = Some (ps ! i) \<and> color_distance c (ps ! i) < m))"
proof (induction ps arbitrary: md cc calls)
  case Nil
  show ?case by (cases md) simp_all
next
  case (Cons p ps)
  let ?d = "color_distance c p"
  let ?calls = "calls @ [Rgb2Lab p, DeltaE c p]"
  show ?case
  proof (cases "below ?d md")
    case True
    obtain r where r: "fst (palette_loop (rgb2lab c) c ps (Some ?d) (Some p) ?calls) = Inr r"
      and alt: "(r = Some p \<and> (\<forall>q \<in> set ps. ?d \<le> color_distance c q)) \<or>
                (\<exists>i. first_min c ps i \<and> r = Some (ps ! i) \<and> color_distance c (ps ! i) < ?d)"
      using Cons.IH [of "Some ?d" "Some p" ?calls] by auto
    have eq: "fst (palette_loop (rgb2lab c) c (p # ps) md cc calls) = Inr r"
      using True r by (simp only: palette_loop_step if_True)
    from alt obtain i where i: "first_min c (p # ps) i" "r = Some ((p # ps) ! i)"
      "color_distance c ((p # ps) ! i) \<le> ?d"
    proof
      assume "r = Some p \<and> (\<forall>q \<in> set ps. ?d \<le> color_distance c q)"
      then have "first_min c (p # ps) 0" "r = Some ((p # ps) ! 0)"
        by (simp_all add: first_min_0)
      then show ?thesis using that [of 0] by simp
    next
      assume "\<exists>i. first_min c ps i \<and> r = Some (ps ! i) \<and> color_distance c (ps ! i) < ?d"
      then obtain k where k: "first_min c ps k" "r = Some (ps ! k)" "color_distance c (ps ! k) < ?d"
        by blast
      then have "first_min c (p # ps) (Suc k)"
        by (simp add: first_min_Suc)
      then show ?thesis using that [of "Suc k"] k by simp
    qed
    show ?thesis
    proof (cases md)
      case None
      with eq i show ?thesis by auto
    next
      case (Some m)
      with True have "?d < m" by (simp add: below_def)
      with i have "color_distance c ((p # ps) ! i) < m" by simp
      with eq i Some show ?thesis by auto
    qed
  next
    case False
    then obtain m where md: "md = Some m" and m: "m \<le> ?d"
      by (cases md) (auto simp: below_def)
    obtain r where r: "fst (palette_loop (rgb2lab c) c ps (Some m) cc ?calls) = Inr r"
      and alt: "(r = cc \<and> (\<forall>q \<in> set ps. m \<le> color_distance c q)) \<or>
                (\<exists>i. first_min c ps i \<and> r = Some (ps ! i) \<and> color_distance c (ps ! i) < m)"
      using Cons.IH [of "Some m" cc ?calls] by auto
    have eq: "fst (palette_loop (rgb2lab c) c (p # ps) md cc calls) = Inr r"
      using False r md by (simp only: palette_loop_step if_False)
    from alt show ?thesis
    proof
      assume "r = cc \<and> (\<forall>q \<in> set ps. m \<le> color_distance c q)"
      with eq md m show ?thesis by auto
    next
      assume "\<exists>i. first_min c ps i \<and> r = Some (ps ! i) \<and> color_distance c (ps ! i) < m"
      then obtain k where k: "first_min c ps k" "r = Some (ps ! k)" "color_distance c (ps ! k) < m"
        by blast
      then have "first_min c (p # ps) (Suc k)"
        using m by (simp add: first_min_Suc)
      with eq md k show ?thesis by auto
    qed
  qed
qed

lemma find_closest_color_first_min:
  "pal \<noteq> [] \<Longrightarrow> \<exists>i. first_min c pal i \<and> fst (find_closest_color pal c) = Inr (Some (pal ! i))"
  using palette_loop_result [of c pal None None "[Rgb2Lab c]"]
  by (auto simp: find_closest_color_def Let_def)

lemma find_closest_color_calls:
  "snd (find_closest_color pal c) =
     (if pal = [] then [] else Rgb2Lab c # concat (map (\<lambda>p. [Rgb2Lab p, DeltaE c p]) pal))"
  by (simp add: find_closest_color_def palette_loop_calls Let_def)

lemma find_closest_color_matched: "find_closest_color pal c = (Inr (matched pal c), snd (find_closest_color pal c))"
proof (cases "pal = []")
  case True
  then show ?thesis by (simp add: matched_def find_closest_color_def)
next
  case False
  from find_closest_color_first_min [OF this, of c] show ?thesis
    by (auto simp: matched_def prod_eq_iff)
qed

lemma matched_Some: "\<exists>t. matched pal c = Some t \<and> (pal \<noteq> [] \<longrightarrow> t \<in> set pal)"
proof (cases "pal = []")
  case True
  then have "matched pal c = Some c"
    by (simp add: matched_def find_closest_color_def)
  with True show ?thesis
    by blast
next
  case False
  from find_closest_color_first_min [OF this, of c]
  obtain i where "i < length pal" "matched pal c = Some (pal ! i)"
    by (auto simp: matched_def first_min_def)
  then have "matched pal c = Some (pal ! i) \<and> pal ! i \<in> set pal"
    by simp
  then show ?thesis
    by blast
qed

lemma find_closest_color_Nil [simp]: "find_closest_color [] c = (Inr (Some c), [])"
  by (simp add: find_closest_color_def)

text \<open>
  Claim C7. Against an empty palette \<^verbatim>\<open>find_closest_color\<close> returns the query colour
  itself, and it makes no call of \<^verbatim>\<open>rgb2lab\<close> and compares with no palette entry.
\<close>

theorem find_closest_color_empty_palette:
  "find_closest_color [] c = (Inr (Some c), [])"
  by (simp add: find_closest_color_def)

section \<open>Properties of the nearest-neighbour order\<close>

declare nearest_loop.simps [simp del]

lemma mset_pop: "i < length xs \<Longrightarrow> add_mset (xs ! i) (mset (pop xs i)) = mset xs"
proof -
  assume "i < length xs"
  then have "xs = take i xs @ xs ! i # drop (Suc i) xs"
    by (rule id_take_nth_drop)
  then have "mset xs = mset (take i xs @ xs ! i # drop (Suc i) xs)"
    by simp
  then show ?thesis
    by (simp add: pop_def)
qed

lemma mset_nearest_loop: "mset (nearest_loop s r) = mset s + mset r"
proof (induction s r rule: nearest_loop.induct)
  case (1 s r)
  show ?case
  proof (cases "r = []")
    case True
    then show ?thesis by (simp add: nearest_loop.simps)
  next
    case False
    define i where "i = nearest (last s) r 0 0 None"
    have lt: "i < length r"
      unfolding i_def using False by (rule nearest_index)
    have "mset (nearest_loop s r) = mset (nearest_loop (s @ [r ! i]) (pop r i))"
      using False by (subst nearest_loop.simps) (simp add: i_def Let_def)
    also have "\<dots> = mset (s @ [r ! i]) + mset (pop r i)"
      using "1.IH" [OF False i_def] .
    also have "\<dots> = mset s + mset r"
      using mset_pop [OF lt] by simp
    finally show ?thesis .
  qed
qed

lemma mset_order_cell: "mset (order_cell cell) = mset cell"
  by (cases cell rule: order_cell.cases) (simp_all add: mset_nearest_loop)

lemma draw_cell_never:
  "draw_cell None ps done = (done @ concat (map (\<lambda>p. [MoveTo (fst p) (snd p), Click]) ps), False)"
  by (induction ps arbitrary: "done") (simp_all add: stop_drawing_def)

text \<open>
  Claim C10. The nearest-neighbour order of a grid cell is a permutation of the cell's
  points: as multisets the ordered list and the original list are equal, so no point
  is dropped and none is duplicated. When the drawing is not cancelled, the cell is
  drawn as one \<open>MoveTo\<close> and one \<open>Click\<close> for each point of that ordered list.
\<close>

theorem order_cell_permutation:
  "mset (order_cell cell_pixels) = mset cell_pixels \<and>
   draw_cell None (order_cell cell_pixels) done =
     (done @ concat (map (\<lambda>p. [MoveTo (fst p) (snd p), Click]) (order_cell cell_pixels)), False)"
  using mset_order_cell [of cell_pixels] draw_cell_never [of "order_cell cell_pixels" "done"]
  by simp

section \<open>Properties of the grouping loop\<close>

lemma group_pixels_result:
  "group_pixels pal img x1 y1 pw ph coords g =
     Inr \<lparr>pixels_by_color =
            fold (\<lambda>xy d. dict_append d (matched pal (color_at img xy)) (pixel_pos x1 y1 pw ph xy))
              (filter (drawn img) coords) (pixels_by_color g),
          skipped_pixels = skipped_pixels g + length (filter (\<lambda>xy. \<not> drawn img xy) coords),
          matcher_calls = matcher_calls g @
            concat (map (\<lambda>xy. snd (find_closest_color pal (color_at img xy)))
              (filter (drawn img) coords))\<rparr>"
proof (induction coords arbitrary: g)
  case Nil
  show ?case by simp
next
  case (Cons xy coords)
  show ?case
  proof (cases "drawn img xy")
    case False
    then show ?thesis
      by (auto simp: Cons.IH drawn_def skipped_def Let_def)
  next
    case True
    then have "\<not> is_white (pixel_color (getpixel img (fst xy) (snd xy)))"
      "\<not> is_transparent (getpixel img (fst xy) (snd xy))"
      by (simp_all add: drawn_def skipped_def)
    moreover have "find_closest_color pal (pixel_color (getpixel img (fst xy) (snd xy))) =
        (Inr (matched pal (color_at img xy)), snd (find_closest_color pal (color_at img xy)))"
      unfolding color_at_def by (rule find_closest_color_matched)
    ultimately show ?thesis
      using True by (simp add: Cons.IH Let_def)
  qed
qed

lemma plan_pixels_result:
  "plan_pixels pal img x1 y1 pw ph =
     Inr \<lparr>pixels_by_color =
            fold (\<lambda>xy d. dict_append d (matched pal (color_at img xy)) (pixel_pos x1 y1 pw ph xy))
              (visible_pixels img) [],
          skipped_pixels = length (filter (\<lambda>xy. \<not> drawn img xy) (scan_order (width img) (height img))),
          matcher_calls =
            concat (map (\<lambda>xy. snd (find_closest_color pal (color_at img xy))) (visible_pixels img))\<rparr>"
  by (simp add: plan_pixels_def group_pixels_result empty_grouping_def visible_pixels_def)

text \<open>
  Claim C2 states that the matcher memoizes its results per colour. It does not: two
  pixels of the same colour \<open>(10, 10, 10)\<close> make two Lab conversions of that colour and
  two comparisons with the palette entry.
\<close>

theorem no_memoization_counterexample:
  "count_list (planning_calls [(0, 0, 0)] (bitmap_of_rows [[RGB 10 10 10, RGB 10 10 10]]) 0 0 1 1)
     (Rgb2Lab (10, 10, 10)) = 2 \<and>
   count_list (planning_calls [(0, 0, 0)] (bitmap_of_rows [[RGB 10 10 10, RGB 10 10 10]]) 0 0 1 1)
     (DeltaE (10, 10, 10) (0, 0, 0)) = 2"
  by (simp add: planning_calls_def plan_pixels_result visible_pixels_def scan_order_def
      bitmap_of_rows_def drawn_def skipped_def is_white_def pixel_color_def white_threshold_def
      is_transparent_def color_at_def find_closest_color_calls)

text \<open>
  Claim C2, amended. The matcher keeps no results. During the grouping loop it is
  called once for every pixel that is neither white nor transparent, in scan order,
  so the calls of the loop are the calls of those single runs one after the other;
  and a single run on a non-empty palette converts the query colour once and then,
  for every palette entry in order, converts the entry and computes its distance
  (on an empty palette it makes no call).
\<close>

theorem matcher_runs_per_pixel:
  "(\<exists>g. plan_pixels pal img x1 y1 pw ph = Inr g \<and>
        matcher_calls g =
          concat (map (\<lambda>xy. snd (find_closest_color pal (color_at img xy))) (visible_pixels img))) \<and>
   snd (find_closest_color pal c) =
     (if pal = [] then [] else Rgb2Lab c # concat (map (\<lambda>p. [Rgb2Lab p, DeltaE c p]) pal))"
  by (simp add: plan_pixels_result find_closest_color_calls)

section \<open>Properties of the background marking\<close>

lemma pixel_color_mark [simp]: "pixel_color (mark_pixel t px) = pixel_color px"
  by (cases px) (simp_all add: mark_pixel_def to_rgba_def pixel_color_def)

lemma pixel_color_convert [simp]: "pixel_color (convert_rgb px) = pixel_color px"
  by (cases px) (simp_all add: convert_rgb_def pixel_color_def)

lemma mark_pixel_convert:
  "mark_pixel t (convert_rgb px) =
     (case pixel_color px of (r, g, b) \<Rightarrow>
        RGBA r g b (if t \<le> r \<and> t \<le> g \<and> t \<le> b then 0 else 255))"
  by (cases px) (simp_all add: convert_rgb_def pixel_color_def mark_pixel_def to_rgba_def)

lemma mark_white_size:
  "width (mark_white skip_white img) = width img"
  "height (mark_white skip_white img) = height img"
  by (simp_all add: mark_white_def Let_def)

lemma color_at_mark_white: "color_at (mark_white skip_white img) xy = color_at img xy"
  by (simp add: mark_white_def Let_def color_at_def)

lemma draw_pixel_style_all_white:
  assumes "\<forall>xy \<in> set (scan_order (width img) (height img)). is_white (color_at img xy)"
  shows "draw_pixel_style cancel usum pal img x1 y1 pw ph =
           \<lparr>exit_of = FallThrough, trace = [], notices = []\<rparr>"
proof -
  have "visible_pixels img = []"
    using assms by (auto simp: visible_pixels_def drawn_def skipped_def color_at_def filter_empty_conv)
  then show ?thesis
    by (simp add: draw_pixel_style_def plan_pixels_result sorted_groups_def)
qed

lemma cli_draw_pixels_all_marked:
  assumes "\<forall>xy \<in> set (scan_order (width img) (height img)).
             case color_at img xy of (r, g, b) \<Rightarrow> 240 \<le> r \<and> 240 \<le> g \<and> 240 \<le> b"
  shows "cli_draw_pixels cancel (cli_mark_white True img) x1 y1 pw ph = []"
proof -
  have "is_transparent (mark_pixel cli_white_threshold (getpixel img (fst xy) (snd xy)))"
    if "xy \<in> set (scan_order (width img) (height img))" for xy
    using assms that
    by (cases "getpixel img (fst xy) (snd xy)")
      (auto simp: color_at_def pixel_color_def mark_pixel_def to_rgba_def is_transparent_def
        cli_white_threshold_def)
  then have "cli_pixels_to_draw (cli_mark_white True img) x1 y1 pw ph = []"
    by (simp add: cli_pixels_to_draw_def cli_mark_white_def filter_empty_conv)
  then show ?thesis
    by (simp add: cli_draw_pixels_def)
qed

text \<open>
  Claim C5 states that a pixel is marked exactly when its three channels exceed the
  threshold 245, alike in both implementations. A pixel with all channels equal to
  245 is marked although none exceeds 245, and the pixel \<open>(242, 242, 242)\<close> is marked
  by the command-line implementation and left opaque by the other.
\<close>

theorem background_marking_counterexample:
  "getpixel (mark_white True (bitmap_of_rows [[RGB 245 245 245]])) 0 0 = RGBA 245 245 245 0 \<and>
   \<not> (245 > white_threshold) \<and>
   getpixel (mark_white True (bitmap_of_rows [[RGB 242 242 242]])) 0 0 = RGBA 242 242 242 255 \<and>
   getpixel (cli_mark_white True (bitmap_of_rows [[RGB 242 242 242]])) 0 0 = RGBA 242 242 242 0"
  by (simp add: mark_white_def Let_def cli_mark_white_def bitmap_of_rows_def mark_pixel_def to_rgba_def
      convert_rgb_def pixel_color_def white_threshold_def cli_white_threshold_def)

text \<open>
  Claim C5, amended. \<^verbatim>\<open>AutoDraw.process_image\<close> gives a pixel the alpha 0 exactly
  when its three channels are at least 245 and the alpha 255 otherwise, whatever
  alpha the pixel had before (the conversion to RGB has dropped it).
  \<^verbatim>\<open>SimpleAutoDraw.process_image\<close> gives a pixel the alpha 0 exactly when its three
  channels are at least 240 and otherwise leaves it the alpha it had (255 for a
  pixel without an alpha band). Both thresholds are constants of the code. For a
  bitmap whose pixels all have their three channels at least 245, the pixel branch
  of \<^verbatim>\<open>AutoDraw.draw_image\<close> makes no action, whether or not the marking ran; for a
  bitmap whose pixels all have them at least 240, the command-line drawing loop makes
  no action after its marking.
\<close>

theorem background_marking:
  "getpixel (mark_white True img) x y =
     (case pixel_color (getpixel img x y) of (r, g, b) \<Rightarrow>
        RGBA r g b (if 245 \<le> r \<and> 245 \<le> g \<and> 245 \<le> b then 0 else 255)) \<and>
   getpixel (cli_mark_white True img) x y =
     (case to_rgba (getpixel img x y) of (r, g, b, a) \<Rightarrow>
        RGBA r g b (if 240 \<le> r \<and> 240 \<le> g \<and> 240 \<le> b then 0 else a)) \<and>
   ((\<forall>xy \<in> set (scan_order (width img) (height img)).
       case color_at img xy of (r, g, b) \<Rightarrow> 245 \<le> r \<and> 245 \<le> g \<and> 245 \<le> b) \<longrightarrow>
    trace (draw_pixel_style cancel usum pal (mark_white skip_white img) x1 y1 pw ph) = []) \<and>
   ((\<forall>xy \<in> set (scan_order (width img) (height img)).
       case color_at img xy of (r, g, b) \<Rightarrow> 240 \<le> r \<and> 240 \<le> g \<and> 240 \<le> b) \<longrightarrow>
    cli_draw_pixels cancel (cli_mark_white True img) x1 y1 pw ph = [])"
proof (intro conjI impI)
  show "getpixel (mark_white True img) x y =
     (case pixel_color (getpixel img x y) of (r, g, b) \<Rightarrow>
        RGBA r g b (if 245 \<le> r \<and> 245 \<le> g \<and> 245 \<le> b then 0 else 255))"
    by (simp add: mark_white_def Let_def mark_pixel_convert white_threshold_def)
  show "getpixel (cli_mark_white True img) x y =
     (case to_rgba (getpixel img x y) of (r, g, b, a) \<Rightarrow>
        RGBA r g b (if 240 \<le> r \<and> 240 \<le> g \<and> 240 \<le> b then 0 else a))"
    by (auto simp: cli_mark_white_def mark_pixel_def cli_white_threshold_def split: prod.split)
next
  assume all: "\<forall>xy \<in> set (scan_order (width img) (height img)).
       case color_at img xy of (r, g, b) \<Rightarrow> 245 \<le> r \<and> 245 \<le> g \<and> 245 \<le> b"
  let ?m = "mark_white skip_white img"
  have "\<forall>xy \<in> set (scan_order (width ?m) (height ?m)). is_white (color_at ?m xy)"
    using all by (auto simp: mark_white_size color_at_mark_white is_white_def white_threshold_def)
  then show "trace (draw_pixel_style cancel usum pal ?m x1 y1 pw ph) = []"
    by (simp add: draw_pixel_style_all_white)
next
  assume "\<forall>xy \<in> set (scan_order (width img) (height img)).
       case color_at img xy of (r, g, b) \<Rightarrow> 240 \<le> r \<and> 240 \<le> g \<and> 240 \<le> b"
  then show "cli_draw_pixels cancel (cli_mark_white True img) x1 y1 pw ph = []"
    by (rule cli_draw_pixels_all_marked)
qed

text \<open>The amended claim C5 at two bitmaps of two white pixels each.\<close>

theorem background_marking_witness:
  "trace (draw_pixel_style None channel_sum [(0, 0, 0)]
      (mark_white True (bitmap_of_rows [[RGB 250 246 245, RGB 255 255 255]])) 0 0 1 1) = [] \<and>
   cli_draw_pixels None (cli_mark_white True (bitmap_of_rows [[RGB 250 246 245, RGB 240 241 255]]))
      0 0 1 1 = []"
  using background_marking [of "bitmap_of_rows [[RGB 250 246 245, RGB 255 255 255]]" 0 0 None
      channel_sum "[(0, 0, 0)]" True 0 0 1 1]
    background_marking [of "bitmap_of_rows [[RGB 250 246 245, RGB 240 241 255]]" 0 0 None
      channel_sum "[(0, 0, 0)]" True 0 0 1 1]
  by (simp add: scan_order_def bitmap_of_rows_def color_at_def pixel_color_def)

section \<open>Properties of the outline branch\<close>

lemma find_outline_pixels_result:
  "\<forall>xy \<in> set coords. \<exists>s. pixel_sum (getpixel img (fst xy) (snd xy)) = Inr s \<Longrightarrow>
   find_outline_pixels img coords acc = Inr (acc @ outline_of img coords)"
proof (induction coords arbitrary: acc)
  case Nil
  show ?case by (simp add: outline_of_def)
next
  case (Cons xy coords)
  then obtain s where s: "pixel_sum (getpixel img (fst xy) (snd xy)) = Inr s"
    by auto
  have rest: "\<forall>xy \<in> set coords. \<exists>s. pixel_sum (getpixel img (fst xy) (snd xy)) = Inr s"
    using Cons.prems by simp
  show ?case
    using s Cons.IH [OF rest] by (simp add: outline_of_def dark_def)
qed

lemma outline_of_empty:
  "\<forall>xy \<in> set coords. \<not> dark (getpixel img (fst xy) (snd xy)) \<Longrightarrow> outline_of img coords = []"
  by (simp add: outline_of_def filter_empty_conv)

text \<open>
  Claim C4 states that an image without dark pixels is not treated as a failure. For
  a bitmap of two light pixels \<^verbatim>\<open>draw_image\<close> returns \<^verbatim>\<open>False\<close>, the value it returns
  when it fails, and its callers report a failed drawing.
\<close>

theorem no_outline_pixels_counterexample:
  "exit_of (draw_image None
      \<lparr>processed_image = Some (bitmap_of_rows [[RGB 255 255 255, RGB 200 200 200]]),
       palette = [(0, 0, 0)], style = ''outline'', canvas_area = Some (10, 10, 12, 11),
       color_positions = [(0, 0, 0) \<mapsto> (5, 5)], screen_size = (100, 100),
       numpy_sum = channel_sum\<rparr>) = Return False \<and>
   drawing_status (draw_image None
      \<lparr>processed_image = Some (bitmap_of_rows [[RGB 255 255 255, RGB 200 200 200]]),
       palette = [(0, 0, 0)], style = ''outline'', canvas_area = Some (10, 10, 12, 11),
       color_positions = [(0, 0, 0) \<mapsto> (5, 5)], screen_size = (100, 100),
       numpy_sum = channel_sum\<rparr>) False = Drawing_failed"
  by (simp add: draw_image_def area_of_def bitmap_of_rows_def draw_outline_style_def
      scan_order_def pixel_sum_def finish_def drawing_status_def)

text \<open>
  Claim C4, amended. In outline style a bitmap in which no pixel passes the darkness
  test of line 2245 gives an empty plan: the outline branch makes no action, shows the
  notice \<open>No outline pixels found in the image\<close> and returns \<^verbatim>\<open>False\<close>. So
  \<^verbatim>\<open>draw_image\<close> returns \<^verbatim>\<open>False\<close> after its one move to the canvas corner, and the
  callers, which read \<^verbatim>\<open>False\<close> as failure, report a failed drawing.
\<close>

theorem no_outline_pixels:
  assumes "\<forall>xy \<in> set (scan_order (width img) (height img)).
             (\<exists>s. pixel_sum (getpixel img (fst xy) (snd xy)) = Inr s) \<and>
             \<not> dark (getpixel img (fst xy) (snd xy))"
  shows "draw_outline_style cancel pal positions img x1 y1 =
           \<lparr>exit_of = Return False, trace = [],
            notices = [''No outline pixels found in the image'']\<rparr> \<and>
         (processed_image self = Some img \<and> style self = ''outline'' \<and>
          0 < width img \<and> 0 < height img \<longrightarrow>
            exit_of (draw_image cancel self) = Return False \<and>
            drawing_status (draw_image cancel self) stop = Drawing_failed \<and>
            length (trace (draw_image cancel self)) = 1 \<and>
            notices (draw_image cancel self) = [''No outline pixels found in the image''])"
proof -
  have "find_outline_pixels img (scan_order (width img) (height img)) [] = Inr []"
    using assms by (simp add: find_outline_pixels_result outline_of_empty)
  then have block: "draw_outline_style cancel pal positions img x1 y1 =
      \<lparr>exit_of = Return False, trace = [],
       notices = [''No outline pixels found in the image'']\<rparr>" for pal positions x1 y1
    by (simp add: draw_outline_style_def)
  show ?thesis
  proof (intro conjI impI)
    show "draw_outline_style cancel pal positions img x1 y1 =
      \<lparr>exit_of = Return False, trace = [],
       notices = [''No outline pixels found in the image'']\<rparr>"
      by (rule block)
  next
    assume a: "processed_image self = Some img \<and> style self = ''outline'' \<and>
          0 < width img \<and> 0 < height img"
    obtain x1 y1 x2 y2 where area: "area_of self img = (x1, y1, x2, y2)"
      by (metis prod_cases4)
    have d: "draw_image cancel self =
        \<lparr>exit_of = Return False, trace = [MoveTo (real_of_int x1) (real_of_int y1)],
         notices = [''No outline pixels found in the image'']\<rparr>"
      using a area by (simp add: draw_image_def block finish_def)
    show "exit_of (draw_image cancel self) = Return False"
      "drawing_status (draw_image cancel self) stop = Drawing_failed"
      "length (trace (draw_image cancel self)) = 1"
      "notices (draw_image cancel self) = [''No outline pixels found in the image'']"
      by (simp_all add: d drawing_status_def)
  qed
qed

text \<open>The amended claim C4 at a bitmap of one white pixel with an alpha band.\<close>

theorem no_outline_pixels_witness:
  "draw_outline_style None [(0, 0, 0)] [(0, 0, 0) \<mapsto> (5, 5)]
      (bitmap_of_rows [[RGBA 255 255 255 0]]) 10 10 =
     \<lparr>exit_of = Return False, trace = [],
      notices = [''No outline pixels found in the image'']\<rparr> \<and>
   exit_of (draw_image None
      \<lparr>processed_image = Some (bitmap_of_rows [[RGBA 255 255 255 0]]),
       palette = [(0, 0, 0)], style = ''outline'', canvas_area = None,
       color_positions = [(0, 0, 0) \<mapsto> (5, 5)], screen_size = (100, 100),
       numpy_sum = channel_sum\<rparr>) = Return False \<and>
   drawing_status (draw_image None
      \<lparr>processed_image = Some (bitmap_of_rows [[RGBA 255 255 255 0]]),
       palette = [(0, 0, 0)], style = ''outline'', canvas_area = None,
       color_positions = [(0, 0, 0) \<mapsto> (5, 5)], screen_size = (100, 100),
       numpy_sum = channel_sum\<rparr>) False = Drawing_failed"
  using no_outline_pixels [where img = "bitmap_of_rows [[RGBA 255 255 255 0]]" and cancel = None
      and pal = "[(0, 0, 0)]" and positions = "[(0, 0, 0) \<mapsto> (5, 5)]" and ?x1.0 = 10 and ?y1.0 = 10
      and stop = False
      and self = "\<lparr>processed_image = Some (bitmap_of_rows [[RGBA 255 255 255 0]]),
       palette = [(0, 0, 0)], style = ''outline'', canvas_area = None,
       color_positions = [(0, 0, 0) \<mapsto> (5, 5)], screen_size = (100, 100),
       numpy_sum = channel_sum\<rparr>"]
  by (simp add: scan_order_def bitmap_of_rows_def pixel_sum_def dark_def)

section \<open>Cancellation\<close>

lemma draw_cell_extends: "prefix done (fst (draw_cell cancel ps done))"
proof (induction ps arbitrary: "done")
  case Nil
  show ?case by simp
next
  case (Cons p ps)
  show ?case
    using Cons.IH [of "done @ [MoveTo (fst p) (snd p), Click]"]
    by (auto dest: append_prefixD)
qed

lemma draw_cell_completed:
  "snd (draw_cell cancel ps done) = False \<Longrightarrow> draw_cell cancel ps done = draw_cell None ps done"
  by (induction ps arbitrary: "done") (auto simp: stop_drawing_def split: if_splits)

lemma draw_cell_prefix: "prefix (fst (draw_cell cancel ps done)) (fst (draw_cell None ps done))"
proof (induction ps arbitrary: "done")
  case Nil
  show ?case by simp
next
  case (Cons p ps)
  show ?case
  proof (cases "stop_drawing cancel done")
    case True
    then show ?thesis
      using draw_cell_extends [of "done" None "p # ps"] by simp
  next
    case False
    then show ?thesis
      using Cons.IH by (simp add: stop_drawing_def)
  qed
qed

text \<open>
  The two bounds below are stated for any key press \<open>cancel\<close> and any number \<open>b\<close>
  or \<open>k\<close> that the tests of the flag respect, so that they serve for both values of
  \<open>seen\<close>.
\<close>

lemma draw_cell_length:
  assumes "\<And>acts. \<not> stop_drawing cancel acts \<Longrightarrow> length acts + 2 \<le> b"
  shows "length (fst (draw_cell cancel ps done)) \<le> max (length done) b"
proof (induction ps arbitrary: "done")
  case Nil
  show ?case by simp
next
  case (Cons p ps)
  show ?case
  proof (cases "stop_drawing cancel done")
    case True
    then show ?thesis by simp
  next
    case False
    then have "length (done @ [MoveTo (fst p) (snd p), Click]) \<le> b"
      using assms [of "done"] by simp
    with Cons.IH [of "done @ [MoveTo (fst p) (snd p), Click]"] False show ?thesis
      by simp
  qed
qed

lemma draw_cell_halted:
  assumes "\<And>acts. stop_drawing cancel acts \<Longrightarrow> k \<le> length acts"
  shows "snd (draw_cell cancel ps done) \<Longrightarrow> k \<le> length (fst (draw_cell cancel ps done))"
proof (induction ps arbitrary: "done")
  case Nil
  then show ?case by simp
next
  case (Cons p ps)
  show ?case
  proof (cases "stop_drawing cancel done")
    case True
    then show ?thesis
      using assms [of "done"] by simp
  next
    case False
    with Cons.prems have "snd (draw_cell cancel ps (done @ [MoveTo (fst p) (snd p), Click]))"
      by simp
    from Cons.IH [OF this] False show ?thesis
      by simp
  qed
qed

lemma draw_cells_never:
  "draw_cells None cells done =
     (done @ concat (map (\<lambda>cell. concat (map (\<lambda>p. [MoveTo (fst p) (snd p), Click]) (order_cell cell))) cells),
      False)"
  by (induction cells arbitrary: "done") (simp_all add: draw_cell_never)

lemma draw_cells_extends: "prefix done (fst (draw_cells cancel cells done))"
proof (induction cells arbitrary: "done")
  case Nil
  show ?case by simp
next
  case (Cons cell cells)
  obtain d h where c: "draw_cell cancel (order_cell cell) done = (d, h)"
    by (cases "draw_cell cancel (order_cell cell) done")
  have pd: "prefix done d"
    using draw_cell_extends [of "done" cancel "order_cell cell"] c by simp
  show ?case
  proof (cases h)
    case True
    with c pd show ?thesis by simp
  next
    case False
    with c pd Cons.IH [of d] show ?thesis
      by (auto intro: prefix_order.trans)
  qed
qed

lemma draw_cells_completed:
  "snd (draw_cells cancel cells done) = False \<Longrightarrow>
   draw_cells cancel cells done = draw_cells None cells done"
proof (induction cells arbitrary: "done")
  case Nil
  show ?case by simp
next
  case (Cons cell cells)
  obtain d h where c: "draw_cell cancel (order_cell cell) done = (d, h)"
    by (cases "draw_cell cancel (order_cell cell) done")
  with Cons.prems have h: "h = False"
    by (cases h) simp_all
  with c have n: "draw_cell None (order_cell cell) done = (d, False)"
    using draw_cell_completed [of cancel "order_cell cell" "done"] by simp
  from Cons.prems c h have "snd (draw_cells cancel cells d) = False"
    by simp
  from Cons.IH [OF this] c h n show ?case
    by simp
qed

lemma draw_cells_prefix:
  "prefix (fst (draw_cells cancel cells done)) (fst (draw_cells None cells done))"
proof (induction cells arbitrary: "done")
  case Nil
  show ?case by simp
next
  case (Cons cell cells)
  obtain d h where c: "draw_cell cancel (order_cell cell) done = (d, h)"
    by (cases "draw_cell cancel (order_cell cell) done")
  obtain d' where n: "draw_cell None (order_cell cell) done = (d', False)"
    by (simp add: draw_cell_never)
  show ?case
  proof (cases h)
    case True
    have "prefix d d'"
      using draw_cell_prefix [of cancel "order_cell cell" "done"] c n by simp
    moreover have "prefix d' (fst (draw_cells None cells d'))"
      by (rule draw_cells_extends)
    ultimately show ?thesis
      using c n True by (auto intro: prefix_order.trans)
  next
    case False
    with c have "d' = d"
      using draw_cell_completed [of cancel "order_cell cell" "done"] n by simp
    with c n False Cons.IH [of d] show ?thesis
      by simp
  qed
qed

lemma draw_cells_length:
  assumes "\<And>acts. \<not> stop_drawing cancel acts \<Longrightarrow> length acts + 2 \<le> b"
  shows "length (fst (draw_cells cancel cells done)) \<le> max (length done) b"
proof (induction cells arbitrary: "done")
  case Nil
  show ?case by simp
next
  case (Cons cell cells)
  obtain d h where c: "draw_cell cancel (order_cell cell) done = (d, h)"
    by (cases "draw_cell cancel (order_cell cell) done")
  have ld: "length d \<le> max (length done) b"
    using draw_cell_length [of cancel b "order_cell cell" "done"] assms c by simp
  show ?case
  proof (cases h)
    case True
    with c ld show ?thesis by simp
  next
    case False
    with c ld Cons.IH [of d] show ?thesis
      by simp
  qed
qed

lemma draw_cells_halted:
  assumes "\<And>acts. stop_drawing cancel acts \<Longrightarrow> k \<le> length acts"
  shows "snd (draw_cells cancel cells done) \<Longrightarrow> k \<le> length (fst (draw_cells cancel cells done))"
proof (induction cells arbitrary: "done")
  case Nil
  then show ?case by simp
next
  case (Cons cell cells)
  obtain d h where c: "draw_cell cancel (order_cell cell) done = (d, h)"
    by (cases "draw_cell cancel (order_cell cell) done")
  show ?case
  proof (cases h)
    case True
    then have "k \<le> length d"
      using draw_cell_halted [of cancel k "order_cell cell" "done"] assms c by simp
    with c True show ?thesis by simp
  next
    case False
    with Cons.prems c have "snd (draw_cells cancel cells d)"
      by simp
    from Cons.IH [OF this] c False show ?thesis
      by simp
  qed
qed

lemma draw_colors_extends: "prefix done (fst (draw_colors cancel x1 y1 groups done))"
proof (induction groups arbitrary: "done")
  case Nil
  show ?case by simp
next
  case (Cons g groups)
  obtain color pixels where g: "g = (color, pixels)"
    by (cases g)
  obtain d h where c: "draw_cells cancel (grid_cells x1 y1 pixels) (done @ [SelectColor color]) = (d, h)"
    by (cases "draw_cells cancel (grid_cells x1 y1 pixels) (done @ [SelectColor color])")
  have "prefix (done @ [SelectColor color]) d"
    using draw_cells_extends [of "done @ [SelectColor color]" cancel "grid_cells x1 y1 pixels"] c
    by simp
  then have pd: "prefix done d"
    using append_prefixD by blast
  show ?case
  proof (cases h)
    case True
    with g c pd show ?thesis by simp
  next
    case False
    with g c pd Cons.IH [of d] show ?thesis
      by (auto intro: prefix_order.trans)
  qed
qed

lemma draw_colors_prefix:
  "prefix (fst (draw_colors cancel x1 y1 groups done)) (fst (draw_colors None x1 y1 groups done))"
proof (induction groups arbitrary: "done")
  case Nil
  show ?case by simp
next
  case (Cons g groups)
  obtain color pixels where g: "g = (color, pixels)"
    by (cases g)
  let ?cells = "grid_cells x1 y1 pixels"
  let ?d0 = "done @ [SelectColor color]"
  have full: "prefix done (fst (draw_colors None x1 y1 (g # groups) done))"
    by (rule draw_colors_extends)
  show ?case
  proof (cases "stop_drawing cancel done")
    case True
    with g full show ?thesis by simp
  next
    case False
    obtain d h where c: "draw_cells cancel ?cells ?d0 = (d, h)"
      by (cases "draw_cells cancel ?cells ?d0")
    obtain d' h' where n: "draw_cells None ?cells ?d0 = (d', h')"
      by (cases "draw_cells None ?cells ?d0")
    have h': "h' = False"
      using n by (simp add: draw_cells_never)
    show ?thesis
    proof (cases h)
      case True
      have "prefix d d'"
        using draw_cells_prefix [of cancel ?cells ?d0] c n by simp
      moreover have "prefix d' (fst (draw_colors None x1 y1 groups d'))"
        by (rule draw_colors_extends)
      ultimately show ?thesis
        using g c n h' True False by (auto simp: stop_drawing_def intro: prefix_order.trans)
    next
      case hf: False
      with c have "d' = d"
        using draw_cells_completed [of cancel ?cells ?d0] n by simp
      with g c n h' hf False Cons.IH [of d] show ?thesis
        by (simp add: stop_drawing_def)
    qed
  qed
qed

lemma draw_colors_never_halts: "snd (draw_colors None x1 y1 groups done) = False"
proof (induction groups arbitrary: "done")
  case Nil
  show ?case by simp
next
  case (Cons g groups)
  obtain color pixels where g: "g = (color, pixels)"
    by (cases g)
  show ?case
    using Cons.IH by (simp add: g stop_drawing_def draw_cells_never)
qed

lemma draw_colors_completed:
  "snd (draw_colors cancel x1 y1 groups done) = False \<Longrightarrow>
   draw_colors cancel x1 y1 groups done = draw_colors None x1 y1 groups done"
proof (induction groups arbitrary: "done")
  case Nil
  show ?case by simp
next
  case (Cons g groups)
  obtain color pixels where g: "g = (color, pixels)"
    by (cases g)
  let ?cells = "grid_cells x1 y1 pixels"
  let ?d0 = "done @ [SelectColor color]"
  from Cons.prems g have go: "\<not> stop_drawing cancel done"
    by (cases "stop_drawing cancel done") simp_all
  obtain d h where c: "draw_cells cancel ?cells ?d0 = (d, h)"
    by (cases "draw_cells cancel ?cells ?d0")
  with Cons.prems g go have h: "h = False"
    by (cases h) simp_all
  with c have n: "draw_cells None ?cells ?d0 = (d, False)"
    using draw_cells_completed [of cancel ?cells ?d0] by simp
  from Cons.prems g go c h have "snd (draw_colors cancel x1 y1 groups d) = False"
    by simp
  from Cons.IH [OF this] g go c h n show ?case
    by (simp add: stop_drawing_def)
qed

lemma draw_colors_length:
  assumes "\<And>acts. \<not> stop_drawing cancel acts \<Longrightarrow> length acts + 2 \<le> b"
  shows "length (fst (draw_colors cancel x1 y1 groups done)) \<le> max (length done) b"
proof (induction groups arbitrary: "done")
  case Nil
  show ?case by simp
next
  case (Cons g groups)
  obtain color pixels where g: "g = (color, pixels)"
    by (cases g)
  show ?case
  proof (cases "stop_drawing cancel done")
    case True
    with g show ?thesis by simp
  next
    case False
    obtain d h where c: "draw_cells cancel (grid_cells x1 y1 pixels) (done @ [SelectColor color]) = (d, h)"
      by (cases "draw_cells cancel (grid_cells x1 y1 pixels) (done @ [SelectColor color])")
    from False have "length (done @ [SelectColor color]) \<le> b"
      using assms [of "done"] by simp
    then have ld: "length d \<le> b"
      using draw_cells_length [of cancel b "grid_cells x1 y1 pixels" "done @ [SelectColor color]"]
        assms c
      by simp
    show ?thesis
    proof (cases h)
      case True
      with g c ld False show ?thesis by simp
    next
      case hf: False
      with g c ld False Cons.IH [of d] show ?thesis
        by simp
    qed
  qed
qed

lemma draw_colors_halted:
  assumes "\<And>acts. stop_drawing cancel acts \<Longrightarrow> k \<le> length acts"
  shows "snd (draw_colors cancel x1 y1 groups done) \<Longrightarrow>
         k \<le> length (fst (draw_colors cancel x1 y1 groups done))"
proof (induction groups arbitrary: "done")
  case Nil
  then show ?case by simp
next
  case (Cons g groups)
  obtain color pixels where g: "g = (color, pixels)"
    by (cases g)
  show ?case
  proof (cases "stop_drawing cancel done")
    case True
    with g show ?thesis
      using assms [of "done"] by simp
  next
    case False
    obtain d h where c: "draw_cells cancel (grid_cells x1 y1 pixels) (done @ [SelectColor color]) = (d, h)"
      by (cases "draw_cells cancel (grid_cells x1 y1 pixels) (done @ [SelectColor color])")
    show ?thesis
    proof (cases h)
      case True
      then have "k \<le> length d"
        using draw_cells_halted [of cancel k "grid_cells x1 y1 pixels" "done @ [SelectColor color]"]
          assms c
        by simp
      with g c True False show ?thesis by simp
    next
      case hf: False
      with Cons.prems g c False have "snd (draw_colors cancel x1 y1 groups d)"
        by simp
      from Cons.IH [OF this] g c hf False show ?thesis
        by simp
    qed
  qed
qed

lemma not_stopped_bound:
  "\<not> stop_drawing (Some (k, seen)) acts \<Longrightarrow> length acts + 2 \<le> (if seen then k + 1 else k + 2)"
  by (auto simp: stop_drawing_def)

lemma stopped_reached: "stop_drawing (Some (k, seen)) acts \<Longrightarrow> k \<le> length acts"
  by (auto simp: stop_drawing_def)

lemma draw_colors_reached:
  "min k (length (fst (draw_colors None x1 y1 groups done)))
     \<le> length (fst (draw_colors (Some (k, seen)) x1 y1 groups done))"
proof (cases "snd (draw_colors (Some (k, seen)) x1 y1 groups done)")
  case True
  then have "k \<le> length (fst (draw_colors (Some (k, seen)) x1 y1 groups done))"
    using draw_colors_halted [of "Some (k, seen)" k x1 y1 groups "done"] stopped_reached
    by blast
  then show ?thesis
    by simp
next
  case False
  then have "draw_colors (Some (k, seen)) x1 y1 groups done = draw_colors None x1 y1 groups done"
    using draw_colors_completed [of "Some (k, seen)" x1 y1 groups "done"] by simp
  then show ?thesis
    by simp
qed

lemma draw_segments_never:
  "draw_segments None x1 y1 segs done = done @ concat (map (stroke x1 y1) segs)"
  by (induction segs arbitrary: "done") (simp_all add: stop_drawing_def)

lemma fst_find_closest_color: "fst (find_closest_color pal c) = Inr (matched pal c)"
  using find_closest_color_matched [of pal c] by (metis fst_conv)

lemma matched_singleton: "matched [p] c = Some p"
  using matched_Some [of "[p]" c] by auto

lemma draw_pixel_style_trace:
  "trace (draw_pixel_style cancel usum pal img x1 y1 pw ph) =
     (case sorted_groups (sum_key usum pal) (pixels_by_color
             (case plan_pixels pal img x1 y1 pw ph of Inr g \<Rightarrow> g | Inl e \<Rightarrow> empty_grouping)) of
        None \<Rightarrow> []
      | Some groups \<Rightarrow> fst (draw_colors cancel x1 y1 groups []))"
  by (simp add: draw_pixel_style_def plan_pixels_result split: option.split prod.split bool.split)

text \<open>
  Claim C3 states that at most one action follows the setting of the flag, in both
  styles. In pixel style, when the key is pressed after one action (the selection of
  the colour) and the test of line 2209 has already passed, the move and the click
  are both made: three actions, not at most two. In outline style, when the key is
  pressed after two actions (the colour click and the move to the start of the
  stroke), the whole stroke of a three-pixel line is still drawn: six actions, not at
  most three.
\<close>

theorem cancellation_counterexample:
  "trace (draw_pixel_style (Some (1, False)) channel_sum [(0, 0, 0)]
         (bitmap_of_rows [[RGB 10 10 10]]) 0 0 1 1) =
     [SelectColor (0, 0, 0), MoveTo (1 / 2) (1 / 2), Click] \<and>
   \<not> length (trace (draw_pixel_style (Some (1, False)) channel_sum [(0, 0, 0)]
         (bitmap_of_rows [[RGB 10 10 10]]) 0 0 1 1)) \<le> 1 + 1 \<and>
   trace (draw_outline_style (Some (2, True)) [(0, 0, 0)] [(0, 0, 0) \<mapsto> (5, 5)]
         (bitmap_of_rows [[RGB 0 0 0, RGB 0 0 0, RGB 0 0 0]]) 10 10) =
     [ClickAt 5 5, MoveTo 10 10, PressDown, DragTo 11 10, DragTo 12 10, Release] \<and>
   \<not> length (trace (draw_outline_style (Some (2, True)) [(0, 0, 0)] [(0, 0, 0) \<mapsto> (5, 5)]
         (bitmap_of_rows [[RGB 0 0 0, RGB 0 0 0, RGB 0 0 0]]) 10 10)) \<le> 2 + 1"
proof -
  have pixel: "trace (draw_pixel_style (Some (1, False)) channel_sum [(0, 0, 0)]
         (bitmap_of_rows [[RGB 10 10 10]]) 0 0 1 1) =
     [SelectColor (0, 0, 0), MoveTo (1 / 2) (1 / 2), Click]"
    by (simp add: draw_pixel_style_def plan_pixels_result visible_pixels_def scan_order_def
        bitmap_of_rows_def drawn_def skipped_def is_white_def pixel_color_def white_threshold_def
        is_transparent_def color_at_def matched_singleton sorted_groups_def grid_cells_def
        stop_drawing_def pixel_pos_def)
  have outline: "trace (draw_outline_style (Some (2, True)) [(0, 0, 0)] [(0, 0, 0) \<mapsto> (5, 5)]
         (bitmap_of_rows [[RGB 0 0 0, RGB 0 0 0, RGB 0 0 0]]) 10 10) =
     [ClickAt 5 5, MoveTo 10 10, PressDown, DragTo 11 10, DragTo 12 10, Release]"
    by (simp add: draw_outline_style_def scan_order_def bitmap_of_rows_def pixel_sum_def
        fst_find_closest_color matched_singleton black_position_def stop_drawing_def
        next_point_def directions_def stroke_def canvas_point_def)
  show ?thesis
    unfolding pixel outline by simp
qed

text \<open>
  Claim C3, amended, for pixel style. When the key is pressed with \<open>k\<close> actions
  completed, the drawing finishes at most the step whose test of the flag had already
  passed, which is one selection of a colour or one move with its click, and halts
  at the next test. So at most \<open>k + 2\<close> actions are made in all, and at most
  \<open>k + 1\<close> when the key press came before the test made at \<open>k\<close> completed actions.
  The actions made are an initial part of the actions of the uncancelled drawing
  that holds the first \<open>k\<close> of them: no action is left out before the halt and none
  is made after it.

  Outline style is not part of this statement. There the flag is read once for each
  segment, before its stroke (line 2311), and not while the stroke is drawn, unlike
  the test before every pixel of lines 2208-2211.
\<close>

theorem pixel_style_cancellation:
  "length (trace (draw_pixel_style (Some (k, seen)) usum pal img x1 y1 pw ph))
     \<le> (if seen then k + 1 else k + 2) \<and>
   prefix (trace (draw_pixel_style (Some (k, seen)) usum pal img x1 y1 pw ph))
     (trace (draw_pixel_style None usum pal img x1 y1 pw ph)) \<and>
   min k (length (trace (draw_pixel_style None usum pal img x1 y1 pw ph)))
     \<le> length (trace (draw_pixel_style (Some (k, seen)) usum pal img x1 y1 pw ph))"
proof -
  let ?d = "pixels_by_color
    (case plan_pixels pal img x1 y1 pw ph of Inr g \<Rightarrow> g | Inl e \<Rightarrow> empty_grouping)"
  let ?b = "if seen then k + 1 else k + 2"
  show ?thesis
  proof (cases "sorted_groups (sum_key usum pal) ?d")
    case None
    then have "trace (draw_pixel_style c usum pal img x1 y1 pw ph) = []" for c
      by (simp add: draw_pixel_style_trace)
    then show ?thesis
      by simp
  next
    case (Some groups)
    then have tr: "trace (draw_pixel_style c usum pal img x1 y1 pw ph) =
        fst (draw_colors c x1 y1 groups [])" for c
      by (simp add: draw_pixel_style_trace)
    have "\<not> stop_drawing (Some (k, seen)) acts \<Longrightarrow> length acts + 2 \<le> ?b" for acts
      by (rule not_stopped_bound)
    then have "length (fst (draw_colors (Some (k, seen)) x1 y1 groups []))
        \<le> max (length ([] :: action list)) ?b"
      by (rule draw_colors_length)
    then have bound: "length (fst (draw_colors (Some (k, seen)) x1 y1 groups [])) \<le> ?b"
      by simp
    have initial: "prefix (fst (draw_colors (Some (k, seen)) x1 y1 groups []))
        (fst (draw_colors None x1 y1 groups []))"
      by (rule draw_colors_prefix)
    have reached: "min k (length (fst (draw_colors None x1 y1 groups [])))
        \<le> length (fst (draw_colors (Some (k, seen)) x1 y1 groups []))"
      by (rule draw_colors_reached)
    from bound initial reached show ?thesis
      unfolding tr by blast
  qed
qed

section \<open>The action stream of the pixel branch\<close>

lemma move_targets_append: "move_targets (xs @ ys) = move_targets xs @ move_targets ys"
  by (induction xs rule: move_targets.induct) simp_all

lemma selected_colors_append: "selected_colors (xs @ ys) = selected_colors xs @ selected_colors ys"
  by (induction xs rule: selected_colors.induct) simp_all

lemma clicks_Cons: "clicks (p # ps) = MoveTo (fst p) (snd p) # Click # clicks ps"
  by (simp add: clicks_def)

lemma clicks_Nil: "clicks [] = []"
  by (simp add: clicks_def)

lemma move_targets_clicks: "move_targets (clicks ps) = ps"
  by (induction ps) (simp_all add: clicks_Cons clicks_Nil)

lemma selected_colors_clicks: "selected_colors (clicks ps) = []"
  by (induction ps) (simp_all add: clicks_Cons clicks_Nil)

lemma pointer_clicks: "filter (\<lambda>a. \<not> is_selection a) (clicks ps) = clicks ps"
  by (induction ps) (simp_all add: clicks_Cons clicks_Nil is_selection_def)

lemma length_clicks: "length (clicks ps) = 2 * length ps"
  by (induction ps) (simp_all add: clicks_Cons clicks_Nil)

lemma clicks_append: "clicks (ps @ qs) = clicks ps @ clicks qs"
  by (simp add: clicks_def)

lemma draw_colors_never:
  "draw_colors None x1 y1 groups done = (done @ concat (map (planned_group x1 y1) groups), False)"
proof (induction groups arbitrary: "done")
  case Nil
  show ?case by simp
next
  case (Cons g groups)
  obtain c pixels where g: "g = (c, pixels)"
    by (cases g)
  have "concat (map (\<lambda>cell. concat (map (\<lambda>p. [MoveTo (fst p) (snd p), Click]) (order_cell cell))) cells)
      = clicks (concat (map order_cell cells))" for cells
    by (induction cells) (simp_all add: clicks_def)
  then show ?case
    using g Cons.IH by (simp add: stop_drawing_def draw_cells_never planned_group_def)
qed

lemma move_targets_plan:
  "move_targets (concat (map (planned_group x1 y1) groups)) =
     concat (map (\<lambda>g. concat (map order_cell (grid_cells x1 y1 (snd g)))) groups)"
  by (induction groups)
    (simp_all add: planned_group_def move_targets_append move_targets_clicks)

lemma selected_colors_plan:
  "selected_colors (concat (map (planned_group x1 y1) groups)) = map fst groups"
  by (induction groups)
    (simp_all add: planned_group_def selected_colors_append selected_colors_clicks)

lemma is_selection_SelectColor: "is_selection (SelectColor c)"
  by (simp add: is_selection_def)

lemma pointer_plan:
  "filter (\<lambda>a. \<not> is_selection a) (concat (map (planned_group x1 y1) groups)) =
     clicks (move_targets (concat (map (planned_group x1 y1) groups)))"
  by (induction groups)
    (simp_all add: planned_group_def move_targets_append move_targets_clicks pointer_clicks
      clicks_append is_selection_SelectColor clicks_Nil)

lemma length_plan:
  "length (concat (map (planned_group x1 y1) groups)) =
     2 * length (move_targets (concat (map (planned_group x1 y1) groups))) + length groups"
  by (induction groups)
    (simp_all add: planned_group_def move_targets_append move_targets_clicks length_clicks)

lemma dict_append_keys:
  "map fst (dict_append d k v) = (if k \<in> set (map fst d) then map fst d else map fst d @ [k])"
  by (induction d k v rule: dict_append.induct) auto

lemma dict_append_values:
  "mset (concat (map snd (dict_append d k v))) = add_mset v (mset (concat (map snd d)))"
  by (induction d k v rule: dict_append.induct) simp_all

lemma dict_append_key_set: "set (map fst (dict_append d k v)) = insert k (set (map fst d))"
  by (auto simp: dict_append_keys)

lemma fold_dict_keys:
  "set (map fst (fold (\<lambda>x d. dict_append d (key x) (val x)) xs d)) = set (map fst d) \<union> key ` set xs"
proof (induction xs arbitrary: d)
  case Nil
  show ?case by simp
next
  case (Cons x xs)
  show ?case
    using Cons.IH [of "dict_append d (key x) (val x)"] dict_append_key_set [of d "key x" "val x"]
    by auto
qed

lemma fold_dict_distinct:
  "distinct (map fst d) \<Longrightarrow> distinct (map fst (fold (\<lambda>x d. dict_append d (key x) (val x)) xs d))"
  by (induction xs arbitrary: d) (simp_all add: dict_append_keys)

lemma fold_dict_values:
  "mset (concat (map snd (fold (\<lambda>x d. dict_append d (key x) (val x)) xs d))) =
     mset (concat (map snd d)) + mset (map val xs)"
  by (induction xs arbitrary: d) (simp_all add: dict_append_values)

lemma fill_cells_values:
  "mset (concat (map snd (fill_cells x1 y1 ps cells))) = mset (concat (map snd cells)) + mset ps"
  by (induction ps arbitrary: cells) (simp_all add: dict_append_values)

lemma mset_grid_cells: "mset (concat (grid_cells x1 y1 pixels)) = mset pixels"
  using fill_cells_values [of x1 y1 pixels "[]"] by (simp add: grid_cells_def)

lemma mset_concat_order_cell: "mset (concat (map order_cell cells)) = mset (concat cells)"
  by (induction cells) (simp_all add: mset_order_cell)

lemma mset_moves_of_groups:
  "mset (concat (map (\<lambda>g. concat (map order_cell (grid_cells x1 y1 (snd g)))) groups)) =
     mset (concat (map snd groups))"
  by (induction groups) (simp_all add: mset_concat_order_cell mset_grid_cells)

lemma mset_concat_map_cong:
  "mset xs = mset ys \<Longrightarrow> mset (concat (map f xs)) = mset (concat (map f ys))"
proof -
  assume eq: "mset xs = mset ys"
  have "mset (concat (map f zs)) = sum_mset (image_mset (\<lambda>z. mset (f z)) (mset zs))" for zs
    by (induction zs) simp_all
  with eq show ?thesis
    by simp
qed

lemma sorted_groups_result:
  assumes keys: "None \<notin> set (map fst d)" and dist: "distinct (map fst d)"
  shows "\<exists>groups. sorted_groups key d = Some groups \<and> distinct (map fst groups) \<and>
           Some ` set (map fst groups) = set (map fst d) \<and>
           mset (concat (map snd groups)) = mset (concat (map snd d)) \<and>
           length groups = length d"
proof -
  let ?conv = "\<lambda>(k, ps). (the k, ps)"
  let ?groups = "sort_key (\<lambda>g. key (fst g)) (map ?conv d)"
  have sg: "sorted_groups key d = Some ?groups"
    using keys by (simp add: sorted_groups_def)
  have ms: "mset ?groups = mset (map ?conv d)"
    by simp
  have fst_conv: "map fst (map ?conv d) = map the (map fst d)"
    by (induction d) auto
  have snd_conv: "map snd (map ?conv d) = map snd d"
    by (induction d) auto
  have inj: "inj_on the (set (map fst d))"
  proof (rule inj_onI)
    fix a b :: "color option"
    assume "a \<in> set (map fst d)" "b \<in> set (map fst d)" "the a = the b"
    with keys show "a = b"
      by (cases a; cases b) auto
  qed
  have "distinct (map fst (map ?conv d))"
    unfolding fst_conv using dist inj distinct_map [of the "map fst d"] by blast
  moreover have mfst: "mset (map fst ?groups) = mset (map fst (map ?conv d))"
    by (simp only: mset_map mset_sort)
  ultimately have d1: "distinct (map fst ?groups)"
    using mset_eq_imp_distinct_iff [OF mfst] by blast
  have "set (map fst ?groups) = set (map fst (map ?conv d))"
    using mset_eq_setD [OF mfst] .
  then have "set (map fst ?groups) = the ` set (map fst d)"
    unfolding fst_conv by (simp only: set_map)
  then have "Some ` set (map fst ?groups) = Some ` the ` set (map fst d)"
    by (rule arg_cong)
  also have "\<dots> = set (map fst d)"
    using keys by (force simp: image_iff)
  finally have d2: "Some ` set (map fst ?groups) = set (map fst d)" .
  have "mset (concat (map snd ?groups)) = mset (concat (map snd (map ?conv d)))"
    using ms by (rule mset_concat_map_cong)
  then have d3: "mset (concat (map snd ?groups)) = mset (concat (map snd d))"
    unfolding snd_conv .
  have d4: "length ?groups = length d"
    by simp
  from sg d1 d2 d3 d4 show ?thesis
    by blast
qed

text \<open>
  Claim C1. When the drawing is not cancelled, the action stream of the pixel branch
  has these properties. The targets of its moves are, as a multiset, the canvas
  positions of the pixels that are neither white nor transparent, one move for each
  such pixel. Apart from the colour selections the stream consists of these moves,
  each followed at once by its click. The selected colours are pairwise different and
  are exactly the colours that the matcher returns for those pixels; they are entries
  of the palette (with an empty palette, the colours of those pixels themselves). So
  the stream has two actions for each such pixel and one for each distinct matched
  colour.
\<close>

theorem pixel_style_action_stream:
  "mset (move_targets (trace (draw_pixel_style None usum pal img x1 y1 pw ph))) =
     mset (map (pixel_pos x1 y1 pw ph) (visible_pixels img)) \<and>
   filter (\<lambda>a. \<not> is_selection a) (trace (draw_pixel_style None usum pal img x1 y1 pw ph)) =
     clicks (move_targets (trace (draw_pixel_style None usum pal img x1 y1 pw ph))) \<and>
   distinct (selected_colors (trace (draw_pixel_style None usum pal img x1 y1 pw ph))) \<and>
   Some ` set (selected_colors (trace (draw_pixel_style None usum pal img x1 y1 pw ph))) =
     (\<lambda>xy. matched pal (color_at img xy)) ` set (visible_pixels img) \<and>
   set (selected_colors (trace (draw_pixel_style None usum pal img x1 y1 pw ph))) \<subseteq>
     (if pal = [] then color_at img ` set (visible_pixels img) else set pal) \<and>
   length (trace (draw_pixel_style None usum pal img x1 y1 pw ph)) =
     2 * length (visible_pixels img) +
     card ((\<lambda>xy. matched pal (color_at img xy)) ` set (visible_pixels img))"
proof -
  let ?key = "\<lambda>xy. matched pal (color_at img xy)"
  let ?val = "pixel_pos x1 y1 pw ph"
  let ?d = "fold (\<lambda>xy d. dict_append d (?key xy) (?val xy)) (visible_pixels img) []"
  have keys: "set (map fst ?d) = ?key ` set (visible_pixels img)"
    using fold_dict_keys [of ?key ?val "visible_pixels img" "[]"] by simp
  have dist: "distinct (map fst ?d)"
    using fold_dict_distinct [of "[]" ?key ?val "visible_pixels img"] by simp
  have vals: "mset (concat (map snd ?d)) = mset (map ?val (visible_pixels img))"
    using fold_dict_values [of ?key ?val "visible_pixels img" "[]"] by simp
  have "matched pal c \<noteq> None" for c
    using matched_Some [of pal c] by auto
  then have "None \<notin> ?key ` set (visible_pixels img)"
    by (metis imageE)
  then have "None \<notin> set (map fst ?d)"
    unfolding keys .
  from sorted_groups_result [OF this dist, of "sum_key usum pal"]
  obtain groups where g: "sorted_groups (sum_key usum pal) ?d = Some groups"
    "distinct (map fst groups)"
    "Some ` set (map fst groups) = set (map fst ?d)"
    "mset (concat (map snd groups)) = mset (concat (map snd ?d))"
    "length groups = length ?d"
    by blast
  let ?plan = "concat (map (planned_group x1 y1) groups)"
  have r: "draw_pixel_style None usum pal img x1 y1 pw ph =
      \<lparr>exit_of = FallThrough, trace = ?plan, notices = []\<rparr>"
    using g(1) by (simp add: draw_pixel_style_def plan_pixels_result draw_colors_never)
  have moves: "mset (move_targets ?plan) = mset (map ?val (visible_pixels img))"
    by (simp add: move_targets_plan mset_moves_of_groups g(4) vals)
  then have "length (move_targets ?plan) = length (visible_pixels img)"
    using mset_eq_length by fastforce
  moreover have "card (set (map fst ?d)) = length (map fst ?d)"
    using dist by (rule distinct_card)
  then have "length groups = card (?key ` set (visible_pixels img))"
    using g(5) keys by simp
  ultimately have len: "length ?plan =
      2 * length (visible_pixels img) + card (?key ` set (visible_pixels img))"
    by (simp add: length_plan)
  have "c \<in> (if pal = [] then color_at img ` set (visible_pixels img) else set pal)"
    if "c \<in> set (map fst groups)" for c
  proof -
    from that g(3) keys obtain xy where xy: "xy \<in> set (visible_pixels img)"
      "matched pal (color_at img xy) = Some c"
      by (metis (mono_tags, lifting) imageE image_eqI)
    show ?thesis
    proof (cases "pal = []")
      case True
      with xy(2) have "c = color_at img xy"
        by (simp add: matched_def)
      with True xy(1) show ?thesis
        by simp
    next
      case False
      with matched_Some [of pal "color_at img xy"] xy(2) show ?thesis
        by auto
    qed
  qed
  then have pal: "set (map fst groups) \<subseteq>
      (if pal = [] then color_at img ` set (visible_pixels img) else set pal)"
    by blast
  show ?thesis
    unfolding r
    using moves len g(2) g(3) keys pal
    by (simp add: pointer_plan selected_colors_plan)
qed

section \<open>The nearest palette entry\<close>

lemma powr_root_bound:
  fixes l base :: real
  assumes "0 < base" "0 \<le> l" "l ^ n < base ^ m" "0 < n"
  shows "l < base powr (real m / real n)"
proof -
  let ?p = "base powr (real m / real n)"
  have pos: "0 < ?p"
    using assms(1) by simp
  have "?p ^ n = ?p powr (real n)"
    using pos by (simp add: powr_realpow)
  also have "\<dots> = base powr (real m / real n * real n)"
    by (simp add: powr_powr)
  also have "\<dots> = base powr (real m)"
    using assms(4) by simp
  also have "\<dots> = base ^ m"
    using assms(1) by (simp add: powr_realpow)
  finally have "?p ^ n = base ^ m" .
  with assms(3) have "l ^ n < ?p ^ n"
    by simp
  then show ?thesis
    using pos by (meson less_eq_real_def power_less_imp_less_base)
qed

lemma gamma_threshold:
  "(0.04045 :: real) / 12.92 < ((0.04045 + 0.055) / 1.055) powr 2.4"
proof -
  have "(0.04045 / 12.92 :: real) < ((0.04045 + 0.055) / 1.055) powr (real 12 / real 5)"
    by (rule powr_root_bound) (simp_all add: power_divide divide_simps)
  then show ?thesis
    by simp
qed

lemma lab_threshold:
  "(7.787 * 0.008856) + (16 / 116) < (0.008856 :: real) powr (1 / 3)"
proof -
  have "((7.787 * 0.008856) + (16 / 116) :: real) < 0.008856 powr (real 1 / real 3)"
    by (rule powr_root_bound) (simp_all add: power_divide divide_simps)
  then show ?thesis
    by simp
qed

lemma gamma_expand_strict_mono: "a < b \<Longrightarrow> gamma_expand a < gamma_expand b"
proof -
  assume ab: "a < b"
  consider "b \<le> 0.04045" | "0.04045 < a" | "a \<le> 0.04045" "0.04045 < b"
    by linarith
  then show ?thesis
  proof cases
    case 1
    with ab show ?thesis by (simp add: gamma_expand_def)
  next
    case 2
    with ab have "0 \<le> (a + 0.055) / 1.055" "(a + 0.055) / 1.055 < (b + 0.055) / 1.055"
      by (simp_all add: divide_strict_right_mono)
    then have "((a + 0.055) / 1.055) powr 2.4 < ((b + 0.055) / 1.055) powr 2.4"
      by (intro powr_less_mono2) simp_all
    with 2 ab show ?thesis by (simp add: gamma_expand_def)
  next
    case 3
    have "a / 12.92 \<le> 0.04045 / 12.92"
      using 3(1) by (simp add: divide_right_mono)
    also note gamma_threshold
    also have "((0.04045 + 0.055) / 1.055) powr 2.4 < ((b + 0.055) / 1.055) powr 2.4"
      using 3(2) by (intro powr_less_mono2) (simp_all add: divide_strict_right_mono)
    finally show ?thesis
      using 3 by (simp add: gamma_expand_def)
  qed
qed

lemma lab_f_strict_mono: "a < b \<Longrightarrow> lab_f a < lab_f b"
proof -
  assume ab: "a < b"
  consider "b \<le> 0.008856" | "0.008856 < a" | "a \<le> 0.008856" "0.008856 < b"
    by linarith
  then show ?thesis
  proof cases
    case 1
    with ab show ?thesis by (simp add: lab_f_def)
  next
    case 2
    with ab have "a powr (1 / 3) < b powr (1 / 3)"
      by (intro powr_less_mono2) simp_all
    with 2 ab show ?thesis by (simp add: lab_f_def)
  next
    case 3
    have "(7.787 * a) + (16 / 116) \<le> (7.787 * 0.008856) + (16 / 116)"
      using 3(1) by simp
    also note lab_threshold
    also have "(0.008856 :: real) powr (1 / 3) < b powr (1 / 3)"
      using 3(2) by (intro powr_less_mono2) simp_all
    finally show ?thesis
      using 3 by (simp add: lab_f_def)
  qed
qed

lemma gamma_expand_inj: "gamma_expand a = gamma_expand b \<Longrightarrow> a = b"
  using gamma_expand_strict_mono [of a b] gamma_expand_strict_mono [of b a]
  by (cases a b rule: linorder_cases) simp_all

lemma lab_f_inj: "lab_f a = lab_f b \<Longrightarrow> a = b"
  using lab_f_strict_mono [of a b] lab_f_strict_mono [of b a]
  by (cases a b rule: linorder_cases) simp_all

lemma xyz_inj:
  fixes r g b r' g' b' :: real
  assumes "(r * 0.4124 + g * 0.3576 + b * 0.1805) * 100 / 95.047 =
           (r' * 0.4124 + g' * 0.3576 + b' * 0.1805) * 100 / 95.047"
    and "(r * 0.2126 + g * 0.7152 + b * 0.0722) * 100 / 100.0 =
         (r' * 0.2126 + g' * 0.7152 + b' * 0.0722) * 100 / 100.0"
    and "(r * 0.0193 + g * 0.1192 + b * 0.9505) * 100 / 108.883 =
         (r' * 0.0193 + g' * 0.1192 + b' * 0.9505) * 100 / 108.883"
  shows "r = r' \<and> g = g' \<and> b = b'"
  using assms by (simp add: field_simps)

lemma rgb2lab_inj: "rgb2lab c = rgb2lab p \<Longrightarrow> c = p"
proof -
  assume eq: "rgb2lab c = rgb2lab p"
  obtain r g b where c: "c = (r, g, b)"
    by (cases c)
  obtain r' g' b' where p: "p = (r', g', b')"
    by (cases p)
  let ?R = "gamma_expand (real r / 255.0)" and ?G = "gamma_expand (real g / 255.0)"
    and ?B = "gamma_expand (real b / 255.0)"
  let ?R' = "gamma_expand (real r' / 255.0)" and ?G' = "gamma_expand (real g' / 255.0)"
    and ?B' = "gamma_expand (real b' / 255.0)"
  let ?x = "lab_f ((?R * 0.4124 + ?G * 0.3576 + ?B * 0.1805) * 100 / 95.047)"
  let ?y = "lab_f ((?R * 0.2126 + ?G * 0.7152 + ?B * 0.0722) * 100 / 100.0)"
  let ?z = "lab_f ((?R * 0.0193 + ?G * 0.1192 + ?B * 0.9505) * 100 / 108.883)"
  let ?x' = "lab_f ((?R' * 0.4124 + ?G' * 0.3576 + ?B' * 0.1805) * 100 / 95.047)"
  let ?y' = "lab_f ((?R' * 0.2126 + ?G' * 0.7152 + ?B' * 0.0722) * 100 / 100.0)"
  let ?z' = "lab_f ((?R' * 0.0193 + ?G' * 0.1192 + ?B' * 0.9505) * 100 / 108.883)"
  from eq c p have "(116 * ?y) - 16 = (116 * ?y') - 16" "500 * (?x - ?y) = 500 * (?x' - ?y')"
    "200 * (?y - ?z) = 200 * (?y' - ?z')"
    by (simp_all add: rgb2lab_def Let_def)
  then have "?y = ?y'" "?x = ?x'" "?z = ?z'"
    by simp_all
  then have "(?R * 0.4124 + ?G * 0.3576 + ?B * 0.1805) * 100 / 95.047 =
      (?R' * 0.4124 + ?G' * 0.3576 + ?B' * 0.1805) * 100 / 95.047"
    "(?R * 0.2126 + ?G * 0.7152 + ?B * 0.0722) * 100 / 100.0 =
      (?R' * 0.2126 + ?G' * 0.7152 + ?B' * 0.0722) * 100 / 100.0"
    "(?R * 0.0193 + ?G * 0.1192 + ?B * 0.9505) * 100 / 108.883 =
      (?R' * 0.0193 + ?G' * 0.1192 + ?B' * 0.9505) * 100 / 108.883"
    by (auto dest: lab_f_inj)
  then have "?R = ?R' \<and> ?G = ?G' \<and> ?B = ?B'"
    by (rule xyz_inj)
  then have "real r / 255.0 = real r' / 255.0" "real g / 255.0 = real g' / 255.0"
    "real b / 255.0 = real b' / 255.0"
    by (auto dest: gamma_expand_inj)
  then show ?thesis
    using c p by simp
qed

lemma lab_distance_formula:
  "lab_distance (L1, a1, b1) (L2, a2, b2) =
     (let c1 = sqrt (a1\<^sup>2 + b1\<^sup>2); c2 = sqrt (a2\<^sup>2 + b2\<^sup>2);
          dC = c1 - c2;
          dhSquared = (a1 - a2)\<^sup>2 + (b1 - b2)\<^sup>2 - dC\<^sup>2;
          dH = (if dhSquared < 0 then 0 else sqrt dhSquared)
      in sqrt ((L1 - L2)\<^sup>2 + (dC / (1 + 0.045 * c1))\<^sup>2 + (dH / (1 + 0.015 * c1))\<^sup>2))"
  by (simp add: lab_distance_def delta_e_cie94_formula Let_def)

lemma lab_distance_same: "lab_distance l l = 0"
proof -
  obtain L a b where "l = (L, a, b)"
    by (cases l)
  then show ?thesis
    by (simp add: lab_distance_formula)
qed

lemma lab_distance_zero: "lab_distance l1 l2 = 0 \<Longrightarrow> l1 = l2"
proof -
  assume zero: "lab_distance l1 l2 = 0"
  obtain L1 a1 b1 where l1: "l1 = (L1, a1, b1)"
    by (cases l1)
  obtain L2 a2 b2 where l2: "l2 = (L2, a2, b2)"
    by (cases l2)
  define c1 where "c1 = sqrt (a1\<^sup>2 + b1\<^sup>2)"
  define dC where "dC = c1 - sqrt (a2\<^sup>2 + b2\<^sup>2)"
  define dhSquared where "dhSquared = (a1 - a2)\<^sup>2 + (b1 - b2)\<^sup>2 - dC\<^sup>2"
  define dH where "dH = (if dhSquared < 0 then 0 else sqrt dhSquared)"
  have c1: "0 \<le> c1"
    by (simp add: c1_def)
  then have "0 \<le> 0.045 * c1" "0 \<le> 0.015 * c1"
    by simp_all
  then have sc: "1 + 0.045 * c1 \<noteq> 0" and sh: "1 + 0.015 * c1 \<noteq> 0"
    by linarith+
  have "lab_distance l1 l2 =
      sqrt ((L1 - L2)\<^sup>2 + (dC / (1 + 0.045 * c1))\<^sup>2 + (dH / (1 + 0.015 * c1))\<^sup>2)"
    unfolding l1 l2 lab_distance_formula Let_def c1_def dC_def dhSquared_def dH_def
    by (rule refl)
  with zero have "sqrt ((L1 - L2)\<^sup>2 + (dC / (1 + 0.045 * c1))\<^sup>2 + (dH / (1 + 0.015 * c1))\<^sup>2) = 0"
    by (simp only:)
  then have "(L1 - L2)\<^sup>2 + (dC / (1 + 0.045 * c1))\<^sup>2 + (dH / (1 + 0.015 * c1))\<^sup>2 = 0"
    by simp
  then have parts: "(L1 - L2)\<^sup>2 = 0" "(dC / (1 + 0.045 * c1))\<^sup>2 = 0" "(dH / (1 + 0.015 * c1))\<^sup>2 = 0"
    using zero_le_power2 [of "L1 - L2"] zero_le_power2 [of "dC / (1 + 0.045 * c1)"]
      zero_le_power2 [of "dH / (1 + 0.015 * c1)"]
    by linarith+
  then have L: "L1 = L2" and dC: "dC = 0" and dH: "dH = 0"
    using sc sh by simp_all
  from dC have "dhSquared = (a1 - a2)\<^sup>2 + (b1 - b2)\<^sup>2"
    by (simp add: dhSquared_def)
  then have "0 \<le> dhSquared" "(a1 - a2)\<^sup>2 + (b1 - b2)\<^sup>2 = dhSquared"
    by simp_all
  with dH have "(a1 - a2)\<^sup>2 + (b1 - b2)\<^sup>2 = 0"
    by (simp add: dH_def)
  then have "a1 = a2" "b1 = b2"
    by (simp_all add: sum_power2_eq_zero_iff)
  with L l1 l2 show ?thesis
    by simp
qed

lemma color_distance_same: "color_distance c c = 0"
  by (simp add: color_distance_def lab_distance_same)

lemma color_distance_zero: "color_distance c p = 0 \<Longrightarrow> p = c"
  using lab_distance_zero [of "rgb2lab c" "rgb2lab p"] rgb2lab_inj [of c p]
  by (simp add: color_distance_def)

lemma color_distance_nonneg: "0 \<le> color_distance c p"
  by (simp add: color_distance_def lab_distance_nonneg)

lemma find_closest_color_exact:
  assumes "c \<in> set pal"
  shows "fst (find_closest_color pal c) = Inr (Some c)"
proof -
  from assms have ne: "pal \<noteq> []"
    by auto
  from find_closest_color_first_min [OF ne, of c]
  obtain i where i: "first_min c pal i" "fst (find_closest_color pal c) = Inr (Some (pal ! i))"
    by blast
  from assms obtain k where k: "k < length pal" "pal ! k = c"
    by (auto simp: in_set_conv_nth)
  with i(1) have "color_distance c (pal ! i) \<le> color_distance c c"
    by (auto simp: first_min_def)
  then have "color_distance c (pal ! i) = 0"
    using color_distance_nonneg [of c "pal ! i"] by (simp add: color_distance_same)
  then have "pal ! i = c"
    by (rule color_distance_zero)
  with i(2) show ?thesis
    by simp
qed

text \<open>
  Claim C6. On a non-empty palette \<^verbatim>\<open>find_closest_color\<close> returns an entry of the
  palette whose CIE94 distance from the query colour is the least, and of the entries
  at that least distance the first in palette order (\<open>first_min\<close>). When the query
  colour is itself an entry of the palette, the result is the query colour: its
  distance from itself is 0, and no other colour is at distance 0 from it, because
  the Lab conversion maps different colours to different Lab values.
\<close>

theorem find_closest_color_nearest:
  "(pal \<noteq> [] \<longrightarrow>
      (\<exists>i. first_min c pal i \<and> fst (find_closest_color pal c) = Inr (Some (pal ! i)))) \<and>
   (c \<in> set pal \<longrightarrow> fst (find_closest_color pal c) = Inr (Some c))"
  using find_closest_color_first_min [of pal c] find_closest_color_exact [of c pal]
  by blast

text \<open>Claim C6 at the palette red, black, white and the query colour black.\<close>

theorem find_closest_color_nearest_witness:
  "(\<exists>i. first_min (0, 0, 0) [(255, 0, 0), (0, 0, 0), (255, 255, 255)] i \<and>
        fst (find_closest_color [(255, 0, 0), (0, 0, 0), (255, 255, 255)] (0, 0, 0)) =
          Inr (Some ([(255, 0, 0), (0, 0, 0), (255, 255, 255)] ! i))) \<and>
   fst (find_closest_color [(255, 0, 0), (0, 0, 0), (255, 255, 255)] (0, 0, 0)) =
     Inr (Some (0, 0, 0))"
proof -
  have nonempty: "[(255, 0, 0), (0, 0, 0), (255, 255, 255)] \<noteq> ([] :: color list)"
    by simp
  have member: "(0, 0, 0) \<in> set ([(255, 0, 0), (0, 0, 0), (255, 255, 255)] :: color list)"
    by simp
  show ?thesis
    using find_closest_color_nearest [of "[(255, 0, 0), (0, 0, 0), (255, 255, 255)]" "(0, 0, 0)"]
      nonempty member
    by blast
qed

section \<open>Tracing a straight line\<close>

lemma find_unique:
  "x \<in> set xs \<Longrightarrow> P x \<Longrightarrow> (\<And>y. y \<in> set xs \<Longrightarrow> P y \<Longrightarrow> y = x) \<Longrightarrow> find P xs = Some x"
proof (induction xs)
  case Nil
  then show ?case by simp
next
  case (Cons a xs)
  show ?case
  proof (cases "P a")
    case True
    have "a \<in> set (a # xs)"
      by simp
    from Cons.prems(3) [OF this True] have "a = x" .
    with True show ?thesis
      by (simp only: find.simps if_True)
  next
    case False
    with Cons.prems(2) have "x \<noteq> a"
      by blast
    with Cons.prems(1) have xin: "x \<in> set xs"
      by simp
    have "find P xs = Some x"
    proof (rule Cons.IH [OF xin Cons.prems(2)])
      fix y
      assume "y \<in> set xs" "P y"
      then show "y = x"
        by (intro Cons.prems(3)) simp_all
    qed
    with False show ?thesis
      by (simp only: find.simps if_False)
  qed
qed

lemma direction_components:
  "d \<in> set directions \<Longrightarrow>
   (fst d = -1 \<or> fst d = 0 \<or> fst d = 1) \<and> (snd d = -1 \<or> snd d = 0 \<or> snd d = 1) \<and>
   (fst d \<noteq> 0 \<or> snd d \<noteq> 0)"
  by (auto simp: directions_def)

lemma neighbour_on_line:
  assumes "dir \<in> set line_directions" "d \<in> set directions"
    and "(fst (line_point start dir i) + fst d, snd (line_point start dir i) + snd d) =
         line_point start dir j"
  shows "(j = Suc i \<and> d = dir) \<or> i = Suc j"
proof -
  from assms(3) have e: "fst d = (int j - int i) * fst dir" "snd d = (int j - int i) * snd dir"
    by (simp_all add: line_point_def algebra_simps)
  note c = direction_components [OF assms(2)]
  from assms(1) consider "dir = (1, 0)" | "dir = (0, 1)" | "dir = (1, 1)" | "dir = (-1, 1)"
    by (auto simp: line_directions_def)
  then show ?thesis
  proof cases
    case 1
    with e have "fst d = int j - int i" "snd d = 0"
      by simp_all
    with c 1 show ?thesis
      by (cases d) auto
  next
    case 2
    with e have "snd d = int j - int i" "fst d = 0"
      by simp_all
    with c 2 show ?thesis
      by (cases d) auto
  next
    case 3
    with e have "fst d = int j - int i" "snd d = int j - int i"
      by simp_all
    with c 3 show ?thesis
      by (cases d) auto
  next
    case 4
    with e have "fst d = int i - int j" "snd d = int j - int i"
      by simp_all
    with c 4 show ?thesis
      by (cases d) auto
  qed
qed

lemma line_point_inj:
  assumes "dir \<in> set line_directions" "line_point start dir i = line_point start dir j"
  shows "i = j"
proof -
  from assms(2) have "int i * fst dir = int j * fst dir" "int i * snd dir = int j * snd dir"
    by (simp_all add: line_point_def)
  moreover from assms(1) have "fst dir = 1 \<or> snd dir = 1"
    by (auto simp: line_directions_def)
  ultimately show ?thesis
    by auto
qed

lemma line_point_step:
  "(fst (line_point start dir i) + fst dir, snd (line_point start dir i) + snd dir) =
     line_point start dir (Suc i)"
  by (simp add: line_point_def algebra_simps)

lemma line_directions_subset: "dir \<in> set line_directions \<Longrightarrow> dir \<in> set directions"
  by (auto simp: line_directions_def directions_def)

lemma set_line_points: "set (line_points start dir n) = line_point start dir ` {..<n}"
  by (auto simp: line_points_def)

lemma next_on_line:
  assumes dir: "dir \<in> set line_directions" and i: "i < n"
    and visited: "set visited = line_point start dir ` {..i}"
  shows "next_point (line_points start dir n) visited (line_point start dir i) =
           (if Suc i < n then Some (line_point start dir (Suc i)) else None)"
proof -
  let ?pt = "line_point start dir"
  let ?cands = "map (\<lambda>d. (fst (?pt i) + fst d, snd (?pt i) + snd d)) directions"
  let ?P = "\<lambda>q. q \<in> set (line_points start dir n) \<and> q \<notin> set visited"
  have only: "y = ?pt (Suc i) \<and> Suc i < n" if "y \<in> set ?cands" "?P y" for y
  proof -
    from that(1) obtain d where d: "d \<in> set directions"
      "y = (fst (?pt i) + fst d, snd (?pt i) + snd d)"
      by auto
    from that(2) obtain j where j: "j < n" "y = ?pt j"
      by (auto simp: set_line_points)
    from that(2) j visited have "\<not> j \<le> i"
      by auto
    moreover have "(fst (?pt i) + fst d, snd (?pt i) + snd d) = ?pt j"
      using d(2) j(2) by simp
    from neighbour_on_line [OF dir d(1) this]
    have "(j = Suc i \<and> d = dir) \<or> i = Suc j" .
    ultimately have "j = Suc i"
      by auto
    with j show ?thesis
      by simp
  qed
  show ?thesis
  proof (cases "Suc i < n")
    case True
    have "?pt (Suc i) \<in> set ?cands"
      using line_directions_subset [OF dir] line_point_step [of start dir i]
      by (metis (mono_tags, lifting) image_eqI list.set_map)
    moreover have "?P (?pt (Suc i))"
    proof
      show "?pt (Suc i) \<in> set (line_points start dir n)"
        using True by (auto simp: set_line_points)
      show "?pt (Suc i) \<notin> set visited"
        using visited line_point_inj [OF dir] by fastforce
    qed
    ultimately have "find ?P ?cands = Some (?pt (Suc i))"
    proof (rule find_unique)
      fix y
      assume "y \<in> set ?cands" "?P y"
      then show "y = ?pt (Suc i)"
        by (rule only [THEN conjunct1])
    qed
    with True show ?thesis
      by (simp add: next_point_def)
  next
    case False
    have "\<not> ?P y" if "y \<in> set ?cands" for y
    proof
      assume "?P y"
      with that have "Suc i < n"
        by (rule only [THEN conjunct2])
      with False show False ..
    qed
    then have "find ?P ?cands = None"
      unfolding find_None_iff by blast
    with False show ?thesis
      by (simp add: next_point_def)
  qed
qed

declare extend_segment.simps [simp del]

lemma nth_line_points: "i < n \<Longrightarrow> line_points start dir n ! i = line_point start dir i"
  by (simp add: line_points_def)

lemma length_line_points: "length (line_points start dir n) = n"
  by (simp add: line_points_def)

lemma take_Suc_line_points:
  "Suc i < n \<Longrightarrow>
   take (Suc (Suc i)) (line_points start dir n) =
     take (Suc i) (line_points start dir n) @ [line_point start dir (Suc i)]"
  by (simp add: take_Suc_conv_app_nth length_line_points nth_line_points)

lemma extend_line:
  assumes dir: "dir \<in> set line_directions"
  shows "i < n \<Longrightarrow> set visited = line_point start dir ` {..i} \<Longrightarrow>
         \<exists>v. extend_segment False (line_points start dir n) visited (line_point start dir i)
                (take (Suc i) (line_points start dir n)) = (line_points start dir n, v) \<and>
             set (line_points start dir n) \<subseteq> set v"
proof (induction "n - Suc i" arbitrary: i visited)
  case 0
  then have last: "Suc i = n"
    by simp
  have "next_point (line_points start dir n) visited (line_point start dir i) = None"
    using next_on_line [OF dir "0.prems"(1) "0.prems"(2)] last by simp
  then have "extend_segment False (line_points start dir n) visited (line_point start dir i)
      (take (Suc i) (line_points start dir n)) = (take (Suc i) (line_points start dir n), visited)"
    by (subst extend_segment.simps) simp
  moreover have "take (Suc i) (line_points start dir n) = line_points start dir n"
    using last by (simp add: length_line_points)
  moreover have "set (line_points start dir n) \<subseteq> set visited"
    using "0.prems"(2) last by (auto simp: set_line_points)
  ultimately show ?case
    by simp
next
  case (Suc k)
  then have more: "Suc i < n"
    by simp
  let ?L = "line_points start dir n"
  let ?q = "line_point start dir (Suc i)"
  have "next_point ?L visited (line_point start dir i) = Some ?q"
    using next_on_line [OF dir Suc.prems(1) Suc.prems(2)] more by simp
  then have step: "extend_segment False ?L visited (line_point start dir i) (take (Suc i) ?L) =
      extend_segment False ?L (?q # visited) ?q (take (Suc i) ?L @ [?q])"
    by (subst extend_segment.simps) simp
  have k: "k = n - Suc (Suc i)"
    using Suc.hyps(2) by simp
  have vis: "set (?q # visited) = line_point start dir ` {..Suc i}"
    using Suc.prems(2) by (auto simp: atMost_Suc)
  from Suc.hyps(1) [OF k more vis]
  obtain v where "extend_segment False ?L (?q # visited) ?q (take (Suc (Suc i)) ?L) = (?L, v)"
    "set ?L \<subseteq> set v"
    by blast
  with step show ?case
    by (simp add: take_Suc_line_points [OF more])
qed

lemma group_segments_visited:
  "set pts \<subseteq> set visited \<Longrightarrow> group_segments stop outline pts visited segs = segs"
  by (induction pts) simp_all

lemma group_segments_line:
  assumes dir: "dir \<in> set line_directions" and n: "2 \<le> n"
  shows "group_segments False (line_points start dir n) (line_points start dir n) [] [] =
           [line_points start dir n]"
proof -
  let ?L = "line_points start dir n"
  have L: "?L = line_point start dir 0 # tl ?L"
    using n by (cases ?L) (simp_all add: line_points_def upt_rec)
  have t: "take (Suc 0) ?L = [line_point start dir 0]"
    by (subst L) simp
  have "set [line_point start dir 0] = line_point start dir ` {..0}"
    by simp
  from extend_line [OF dir _ this, of n] n
  obtain v where v: "extend_segment False ?L [line_point start dir 0] (line_point start dir 0)
      [line_point start dir 0] = (?L, v)" "set ?L \<subseteq> set v"
    unfolding t by auto
  have rest: "set (tl ?L) \<subseteq> set v"
    using v(2) by (metis L set_subset_Cons subset_trans)
  have "group_segments False ?L (line_point start dir 0 # tl ?L) [] [] = [?L]"
    using v(1) n by (simp add: group_segments_visited [OF rest] length_line_points)
  with L show ?thesis
    by simp
qed

lemma sorted_wrt_unique:
  assumes irrefl: "\<And>x. \<not> R x x" and trans: "\<And>x y z. R x y \<Longrightarrow> R y z \<Longrightarrow> R x z"
  shows "sorted_wrt R xs \<Longrightarrow> sorted_wrt R ys \<Longrightarrow> set xs = set ys \<Longrightarrow> xs = ys"
proof (induction xs arbitrary: ys)
  case Nil
  then show ?case by simp
next
  case (Cons x xs)
  then obtain y ys' where ys: "ys = y # ys'"
    by (cases ys) auto
  from Cons.prems(1) have x_lt: "\<forall>z \<in> set xs. R x z" and sx: "sorted_wrt R xs"
    by simp_all
  from Cons.prems(2) ys have y_lt: "\<forall>z \<in> set ys'. R y z" and sy: "sorted_wrt R ys'"
    by simp_all
  have xy: "x = y"
  proof (rule ccontr)
    assume ne: "x \<noteq> y"
    from Cons.prems(3) ys have "x \<in> set (y # ys')" "y \<in> set (x # xs)"
      by auto
    with ne have "x \<in> set ys'" "y \<in> set xs"
      by auto
    with x_lt y_lt have "R y x" "R x y"
      by auto
    then have "R x x"
      by (blast intro: trans)
    with irrefl show False
      by blast
  qed
  have "x \<notin> set xs" "y \<notin> set ys'"
    using x_lt y_lt irrefl by blast+
  with Cons.prems(3) ys xy have "set xs = set ys'"
    by auto
  from Cons.IH [OF sx sy this] ys xy show ?case
    by simp
qed

lemma scan_order_Suc: "scan_order w (Suc h) = scan_order w h @ map (\<lambda>x. (x, h)) [0..<w]"
  by (simp add: scan_order_def)

lemma set_scan_order: "set (scan_order w h) = {xy. fst xy < w \<and> snd xy < h}"
  by (induction h) (auto simp: scan_order_Suc scan_order_def less_Suc_eq)

lemma sorted_scan_order:
  "sorted_wrt (\<lambda>p q. scan_before (int (fst p), int (snd p)) (int (fst q), int (snd q)))
     (scan_order w h)"
proof (induction h)
  case 0
  show ?case by (simp add: scan_order_def)
next
  case (Suc h)
  have row: "sorted_wrt (\<lambda>p q. scan_before (int (fst p), int (snd p)) (int (fst q), int (snd q)))
      (map (\<lambda>x. (x, h)) [0..<w])"
    by (simp add: sorted_wrt_map scan_before_def sorted_wrt_iff_nth_less)
  show ?case
    unfolding scan_order_Suc sorted_wrt_append
    using Suc row by (auto simp: set_scan_order scan_before_def)
qed

lemma sorted_outline_of: "sorted_wrt scan_before (outline_of img (scan_order w h))"
  unfolding outline_of_def sorted_wrt_map
  by (rule sorted_wrt_filter) (rule sorted_scan_order)

lemma line_point_before:
  "dir \<in> set line_directions \<Longrightarrow> i < j \<Longrightarrow>
   scan_before (line_point start dir i) (line_point start dir j)"
  by (auto simp: line_directions_def line_point_def scan_before_def)

lemma sorted_line_points:
  "dir \<in> set line_directions \<Longrightarrow> sorted_wrt scan_before (line_points start dir n)"
  by (simp add: line_points_def sorted_wrt_map sorted_wrt_iff_nth_less line_point_before)

lemma outline_is_line:
  assumes "dir \<in> set line_directions"
    and "set (outline_of img (scan_order w h)) = set (line_points start dir n)"
  shows "outline_of img (scan_order w h) = line_points start dir n"
proof (rule sorted_wrt_unique [where R = scan_before])
  show "\<not> scan_before x x" for x
    by (simp add: scan_before_def)
  show "scan_before x y \<Longrightarrow> scan_before y z \<Longrightarrow> scan_before x z" for x y z
    by (auto simp: scan_before_def)
  show "sorted_wrt scan_before (outline_of img (scan_order w h))"
    by (rule sorted_outline_of)
  show "sorted_wrt scan_before (line_points start dir n)"
    using assms(1) by (rule sorted_line_points)
  show "set (outline_of img (scan_order w h)) = set (line_points start dir n)"
    by (rule assms(2))
qed

lemma stroke_Cons:
  "stroke x1 y1 (p # ps) =
     [MoveTo (real_of_int (x1 + fst p)) (real_of_int (y1 + snd p)), PressDown] @
     map (\<lambda>q. DragTo (real_of_int (x1 + fst q)) (real_of_int (y1 + snd q))) ps @ [Release]"
  by (simp add: stroke_def canvas_point_def)

text \<open>
  Claim C8. Let the dark pixels of a bitmap be exactly the ten points of a straight
  line of neighbouring pixels (horizontal, vertical or diagonal), in an image whose
  pixels \<^verbatim>\<open>sum\<close> accepts. Then the outline pixels found are these ten points in line
  order, the tracing of lines 2279-2306 groups them into exactly one segment, the
  line itself, of length 10; and when the position of the black colour is known the
  outline branch clicks the colour and draws the segment as one move to the first
  point, one \<open>PressDown\<close>, a \<open>DragTo\<close> for each of the nine further points in order
  and one \<open>Release\<close> at the end.
\<close>

theorem straight_line_one_stroke:
  assumes "dir \<in> set line_directions"
    and "\<forall>xy \<in> set (scan_order (width img) (height img)).
           \<exists>s. pixel_sum (getpixel img (fst xy) (snd xy)) = Inr s"
    and "set (outline_of img (scan_order (width img) (height img))) = set (line_points start dir 10)"
  shows "find_outline_pixels img (scan_order (width img) (height img)) [] =
           Inr (line_points start dir 10) \<and>
         group_segments False (line_points start dir 10) (line_points start dir 10) [] [] =
           [line_points start dir 10] \<and>
         length (line_points start dir 10) = 10 \<and>
         (black_position positions (matched pal (0, 0, 0)) = Some (cx, cy) \<longrightarrow>
          draw_outline_style None pal positions img x1 y1 =
            \<lparr>exit_of = FallThrough,
             trace = [ClickAt cx cy,
                      MoveTo (real_of_int (x1 + fst start)) (real_of_int (y1 + snd start)),
                      PressDown] @
                     map (\<lambda>q. DragTo (real_of_int (x1 + fst q)) (real_of_int (y1 + snd q)))
                       (tl (line_points start dir 10)) @
                     [Release],
             notices = []\<rparr>)"
proof -
  let ?L = "line_points start dir 10"
  have outline: "find_outline_pixels img (scan_order (width img) (height img)) [] = Inr ?L"
    using find_outline_pixels_result [OF assms(2), of "[]"] outline_is_line [OF assms(1) assms(3)]
    by simp
  have segs: "group_segments False ?L ?L [] [] = [?L]"
    using assms(1) by (rule group_segments_line) simp
  have len: "length ?L = 10"
    by (rule length_line_points)
  have L: "?L = start # tl ?L"
    by (simp add: line_points_def upt_rec line_point_def)
  have "stroke x1 y1 ?L =
      [MoveTo (real_of_int (x1 + fst start)) (real_of_int (y1 + snd start)), PressDown] @
      map (\<lambda>q. DragTo (real_of_int (x1 + fst q)) (real_of_int (y1 + snd q))) (tl ?L) @ [Release]"
    by (subst L) (simp only: stroke_Cons list.sel)
  then have "draw_outline_style None pal positions img x1 y1 =
      \<lparr>exit_of = FallThrough,
       trace = [ClickAt cx cy,
                MoveTo (real_of_int (x1 + fst start)) (real_of_int (y1 + snd start)),
                PressDown] @
               map (\<lambda>q. DragTo (real_of_int (x1 + fst q)) (real_of_int (y1 + snd q))) (tl ?L) @
               [Release],
       notices = []\<rparr>"
    if "black_position positions (matched pal (0, 0, 0)) = Some (cx, cy)"
    using outline segs len that
    by (simp add: draw_outline_style_def fst_find_closest_color stop_drawing_def
        draw_segments_never)
  with outline segs len show ?thesis
    by blast
qed

text \<open>
  Claim C8 at a bitmap of two columns and ten rows whose right column is black: one
  vertical stroke from \<open>(1, 0)\<close> to \<open>(1, 9)\<close>.
\<close>

theorem straight_line_one_stroke_witness:
  "draw_outline_style None [(0, 0, 0)] [(0, 0, 0) \<mapsto> (5, 5)]
      (bitmap_of_rows [[RGB 255 255 255, RGB 0 0 0], [RGB 255 255 255, RGB 0 0 0], [RGB 255 255 255, RGB 0 0 0], [RGB 255 255 255, RGB 0 0 0], [RGB 255 255 255, RGB 0 0 0], [RGB 255 255 255, RGB 0 0 0], [RGB 255 255 255, RGB 0 0 0], [RGB 255 255 255, RGB 0 0 0], [RGB 255 255 255, RGB 0 0 0], [RGB 255 255 255, RGB 0 0 0]]) 100 200 =
     \<lparr>exit_of = FallThrough,
      trace = [ClickAt 5 5, MoveTo 101 200, PressDown, DragTo 101 201, DragTo 101 202, DragTo 101 203, DragTo 101 204, DragTo 101 205, DragTo 101 206, DragTo 101 207, DragTo 101 208, DragTo 101 209, Release],
      notices = []\<rparr>"
proof -
  let ?img = "bitmap_of_rows [[RGB 255 255 255, RGB 0 0 0], [RGB 255 255 255, RGB 0 0 0], [RGB 255 255 255, RGB 0 0 0], [RGB 255 255 255, RGB 0 0 0], [RGB 255 255 255, RGB 0 0 0], [RGB 255 255 255, RGB 0 0 0], [RGB 255 255 255, RGB 0 0 0], [RGB 255 255 255, RGB 0 0 0], [RGB 255 255 255, RGB 0 0 0], [RGB 255 255 255, RGB 0 0 0]]"
  have dir: "(0, 1) \<in> set line_directions"
    by (simp add: line_directions_def)
  have readable: "\<forall>xy \<in> set (scan_order (width ?img) (height ?img)).
      \<exists>s. pixel_sum (getpixel ?img (fst xy) (snd xy)) = Inr s"
    by (simp add: bitmap_of_rows_def scan_order_def pixel_sum_def upt_rec)
  have line: "set (outline_of ?img (scan_order (width ?img) (height ?img))) =
      set (line_points (1, 0) (0, 1) 10)"
    by (simp add: bitmap_of_rows_def scan_order_def outline_of_def dark_def pixel_sum_def
        line_points_def line_point_def upt_rec)
  have black: "black_position [(0, 0, 0) \<mapsto> (5, 5)] (matched [(0, 0, 0)] (0, 0, 0)) = Some (5, 5)"
    by (simp add: black_position_def matched_singleton)
  from straight_line_one_stroke [OF dir readable line,
      of "[(0, 0, 0) \<mapsto> (5, 5)]" "[(0, 0, 0)]" 5 5 100 200] black
  show ?thesis
    by (simp add: line_points_def line_point_def upt_rec)
qed

end
